theory Spec2Isabelle
  imports Main "HOL-Library.Word"
begin

unbundle bit_operations_syntax

section \<open>C strings\<close>

text \<open>
  A \<^verbatim>\<open>char*\<close> argument is modelled by the bytes it points to. The string it denotes ends
  at the first null byte (or at the end of the list, where the terminator is implicit).
\<close>

abbreviation NUL :: char where
  "NUL \<equiv> CHR 0x00"

definition cstr :: "char list \<Rightarrow> string" where
  "cstr s = takeWhile (\<lambda>c. c \<noteq> NUL) s"

definition strlen :: "char list \<Rightarrow> int" where
  "strlen s = int (length (cstr s))"

section \<open>StrQueue (StrQueue.h, StrQueue.cpp)\<close>

text \<open>
  The class has four members. The cursors and the size are C \<^verbatim>\<open>int\<close>s; they stay between
  0 and \<^verbatim>\<open>maxsize\<close>, so they are modelled as unbounded integers. The constructor allocates
  \<^verbatim>\<open>nsize + 1\<close> bytes and does not initialise them: the initial bytes are a parameter.
\<close>

record StrQueue =
  buf :: "char list"
  wrptr :: int
  rdptr :: int
  maxsize :: int

definition StrQueue_new :: "char list \<Rightarrow> int \<Rightarrow> StrQueue" where
  "StrQueue_new mem nsize = \<lparr>buf = mem, wrptr = 0, rdptr = 0, maxsize = nsize\<rparr>"

definition isEmpty :: "StrQueue \<Rightarrow> bool" where
  "isEmpty q = (wrptr q = rdptr q)"

definition used :: "StrQueue \<Rightarrow> int" where
  "used q = (if wrptr q \<ge> rdptr q then wrptr q - rdptr q
             else maxsize q + wrptr q - rdptr q)"

definition makeEmpty :: "StrQueue \<Rightarrow> StrQueue" where
  "makeEmpty q = q\<lparr>rdptr := 0, wrptr := 0\<rparr>"

definition available :: "StrQueue \<Rightarrow> int" where
  "available q = maxsize q - used q - 1"

text \<open>
  \<^verbatim>\<open>buf[wrptr++] = s[i]; if (wrptr >= maxsize) wrptr = 0;\<close> for one byte, and the
  \<^verbatim>\<open>for\<close> loop of \<^verbatim>\<open>push\<close> over the bytes \<^verbatim>\<open>s[0..n-1]\<close>.
\<close>

definition put_byte :: "StrQueue \<Rightarrow> char \<Rightarrow> StrQueue" where
  "put_byte q c =
     (let b = (buf q)[nat (wrptr q) := c];
          w = wrptr q + 1
      in q\<lparr>buf := b, wrptr := (if w \<ge> maxsize q then 0 else w)\<rparr>)"

fun push_loop :: "StrQueue \<Rightarrow> char list \<Rightarrow> StrQueue" where
  "push_loop q [] = q"
| "push_loop q (c # cs) = push_loop (put_byte q c) cs"

definition push :: "StrQueue \<Rightarrow> char list \<Rightarrow> int \<times> StrQueue" where
  "push q s =
     (let n = strlen s + 1
      in if n > available q then (0, q)
         else (1, push_loop q (cstr s @ [NUL])))"

text \<open>
  \<^verbatim>\<open>char c = buf[rdptr++]; if (rdptr >= maxsize) rdptr = 0;\<close> and the loop of
  \<^verbatim>\<open>pop\<close>, with its three \<^verbatim>\<open>break\<close>s. The destination \<^verbatim>\<open>s\<close> is a list of bytes that the
  loop updates by index.
\<close>

definition get_byte :: "StrQueue \<Rightarrow> char \<times> StrQueue" where
  "get_byte q =
     (let c = buf q ! nat (rdptr q);
          r = rdptr q + 1
      in (c, q\<lparr>rdptr := (if r \<ge> maxsize q then 0 else r)\<rparr>))"

function pop_loop :: "StrQueue \<Rightarrow> char list \<Rightarrow> int \<Rightarrow> int \<Rightarrow> StrQueue \<times> char list" where
  "pop_loop q s i maxlen =
     (if i < maxlen - 1 then
        (let (c, q') = get_byte q;
             s' = s[nat i := c]
         in if c = NUL then (q', s')
            else if rdptr q' = wrptr q' then (q', s'[nat (i + 1) := NUL])
            else if i = maxlen - 2 then (q', s'[nat (i + 1) := NUL])
            else pop_loop q' s' (i + 1) maxlen)
      else (q, s))"
  by pat_completeness auto
termination
  by (relation "measure (\<lambda>(q, s, i, maxlen). nat (maxlen - 1 - i))") auto

declare pop_loop.simps [simp del]

definition pop :: "StrQueue \<Rightarrow> char list \<Rightarrow> int \<Rightarrow> int \<times> StrQueue \<times> char list" where
  "pop q s maxlen =
     (if maxlen < 1 then (0, q, s)
      else let s0 = s[0 := NUL]
           in if isEmpty q then (0, q, s0)
              else let (q', s') = pop_loop q s0 0 maxlen in (1, q', s'))"

subsection \<open>Invariant and abstraction\<close>

text \<open>
  A queue is well formed when its size is positive, both cursors index the buffer below
  \<^verbatim>\<open>maxsize\<close>, and the buffer has the \<^verbatim>\<open>maxsize + 1\<close> bytes the constructor allocated.
  Its contents are the bytes from the read cursor up to the write cursor, in ring order.
\<close>

definition valid :: "StrQueue \<Rightarrow> bool" where
  "valid q \<longleftrightarrow> 0 < maxsize q \<and> 0 \<le> rdptr q \<and> rdptr q < maxsize q
           \<and> 0 \<le> wrptr q \<and> wrptr q < maxsize q
           \<and> length (buf q) = nat (maxsize q + 1)"

definition contents :: "StrQueue \<Rightarrow> char list" where
  "contents q =
     map (\<lambda>k. buf q ! nat ((rdptr q + int k) mod maxsize q)) [0..<nat (used q)]"

text \<open>
  What one run of the loop of \<^verbatim>\<open>pop\<close> does, seen on the contents: given the bytes
  queued and the number of iterations left, the bytes written to the destination and the
  bytes that stay queued.
\<close>

fun pop_abs :: "char list \<Rightarrow> nat \<Rightarrow> char list \<times> char list" where
  "pop_abs [] n = ([], [])"
| "pop_abs (c # cs) 0 = ([], c # cs)"
| "pop_abs (c # cs) (Suc n) =
     (if c = NUL then ([NUL], cs)
      else if cs = [] then ([c, NUL], [])
      else if n = 0 then ([c, NUL], cs)
      else (let (w, r) = pop_abs cs n in (c # w, r)))"

text \<open>Writing the bytes \<open>w\<close> into \<open>s\<close> from index \<open>i\<close> on.\<close>

definition store :: "char list \<Rightarrow> nat \<Rightarrow> char list \<Rightarrow> char list" where
  "store s i w = take i s @ w @ drop (i + length w) s"

subsection \<open>Sequences of operations\<close>

text \<open>
  A caller's operation on a queue: a push of a string, a pop into a destination of a
  given capacity, or \<^verbatim>\<open>makeEmpty\<close>. A sequence of operations is applied from left to right.
\<close>

datatype qop = Push "char list" | Pop "char list" int | MakeEmpty

fun apply_op :: "StrQueue \<Rightarrow> qop \<Rightarrow> StrQueue" where
  "apply_op q (Push s) = snd (push q s)"
| "apply_op q (Pop s maxlen) = fst (snd (pop q s maxlen))"
| "apply_op q MakeEmpty = makeEmpty q"

definition apply_ops :: "StrQueue \<Rightarrow> qop list \<Rightarrow> StrQueue" where
  "apply_ops q ops = foldl apply_op q ops"

section \<open>C library functions used by the program\<close>

text \<open>
  \<^verbatim>\<open>strncpy(dst, src, n)\<close> writes exactly \<open>n\<close> bytes: the characters of the source string,
  then null bytes up to \<open>n\<close>. When the source has \<open>n\<close> characters or more, no terminator is
  written. The bytes of \<open>dst\<close> from \<open>n\<close> on are kept.
\<close>

definition strncpy :: "char list \<Rightarrow> char list \<Rightarrow> nat \<Rightarrow> char list" where
  "strncpy dst src n = take n (cstr src @ replicate n NUL) @ drop n dst"

text \<open>
  \<^verbatim>\<open>atoi\<close> reads the string up to its terminator: optional white space, an optional sign,
  then decimal digits; anything else ends the number, and no digits give 0. The value is
  not bounded here (the C function is undefined beyond the range of \<^verbatim>\<open>int\<close>); the caller
  clamps it.
\<close>

definition isspace :: "char \<Rightarrow> bool" where
  "isspace c \<longleftrightarrow> c \<in> {CHR '' '', CHR 0x09, CHR 0x0A, CHR 0x0B, CHR 0x0C, CHR 0x0D}"

definition isdigit :: "char \<Rightarrow> bool" where
  "isdigit c \<longleftrightarrow> (48::nat) \<le> of_char c \<and> of_char c \<le> (57::nat)"

fun digits_val :: "int \<Rightarrow> char list \<Rightarrow> int" where
  "digits_val acc [] = acc"
| "digits_val acc (c # cs) =
     (if isdigit c then digits_val (acc * 10 + (of_char c - 48)) cs else acc)"

definition atoi :: "char list \<Rightarrow> int" where
  "atoi s =
     (case dropWhile isspace (cstr s) of
        [] \<Rightarrow> 0
      | c # r \<Rightarrow> if c = CHR ''-'' then - digits_val 0 r
                 else if c = CHR ''+'' then digits_val 0 r
                 else digits_val 0 (c # r))"

section \<open>ValueToRead (ValueToRead.h, ValueToRead.cpp)\<close>

text \<open>
  The character arrays of the class are lists of bytes (64, 40, 40, 40 and 20 of them);
  \<^verbatim>\<open>tmpbuf\<close>, the scratch area of \<^verbatim>\<open>toString\<close>, is left out. The constructor writes the first
  byte of each array and the three numbers; the other bytes are those of the memory the
  object was allocated in, which is its argument here.
\<close>

definition BLESVR_ERR_DEVNOTFOUND :: int where
  "BLESVR_ERR_DEVNOTFOUND = 1"

definition BLESVR_ERR_CONNECTFAIL :: int where
  "BLESVR_ERR_CONNECTFAIL = 2"

record ValueToRead =
  valueTag :: "char list"
  deviceId :: "char list"
  serviceUuid :: "char list"
  characteristicUuid :: "char list"
  deviceAddr :: "char list"
  minutesBetweenReads :: int
  connects :: int
  errors :: int

definition ValueToRead_new :: "ValueToRead \<Rightarrow> ValueToRead" where
  "ValueToRead_new raw =
     raw\<lparr>valueTag := (valueTag raw)[0 := NUL],
         deviceId := (deviceId raw)[0 := NUL],
         serviceUuid := (serviceUuid raw)[0 := NUL],
         characteristicUuid := (characteristicUuid raw)[0 := NUL],
         minutesBetweenReads := 60,
         deviceAddr := (deviceAddr raw)[0 := NUL],
         connects := 0,
         errors := 0\<rparr>"

text \<open>
  The inner \<^verbatim>\<open>while (!foundEos)\<close> loop of \<^verbatim>\<open>set\<close>, entered with \<^verbatim>\<open>foundEos\<close> false: it
  returns the index stored in \<^verbatim>\<open>commaLocs[i]\<close> (or the \<open>-1\<close> left there), the new \<^verbatim>\<open>chloc\<close>
  and the new \<^verbatim>\<open>foundEos\<close>. The byte after the last one of the list is the terminator.
\<close>

function find_comma :: "char list \<Rightarrow> nat \<Rightarrow> int \<times> nat \<times> bool" where
  "find_comma s chloc =
     (let c = (if chloc < length s then s ! chloc else NUL)
      in if c = NUL then (- 1, chloc + 1, True)
         else if c = CHR '','' then (int chloc, chloc + 1, False)
         else find_comma s (chloc + 1))"
  by pat_completeness auto
termination
  by (relation "measure (\<lambda>(s, chloc). length s - chloc)") (auto split: if_splits)

declare find_comma.simps [simp del]

text \<open>The outer \<^verbatim>\<open>for (int i = 0; i < 4; i++)\<close> loop, on \<^verbatim>\<open>(chloc, foundEos, commaLocs)\<close>.\<close>

definition comma_step :: "char list \<Rightarrow> nat \<Rightarrow> nat \<times> bool \<times> int list \<Rightarrow> nat \<times> bool \<times> int list" where
  "comma_step s i st =
     (case st of (chloc, foundEos, commaLocs) \<Rightarrow>
        if foundEos then (chloc, foundEos, commaLocs)
        else (case find_comma s chloc of (loc, chloc', eos) \<Rightarrow>
                (chloc', eos, commaLocs[i := loc])))"

definition find_commas :: "char list \<Rightarrow> int list" where
  "find_commas s =
     snd (snd (fold (comma_step s) [0, 1, 2, 3] (0, False, replicate 4 (- 1))))"

text \<open>
  \<^verbatim>\<open>set\<close> returns its message; the model also returns the entry as the call leaves it and
  the input line, which the function cuts in place at each comma it uses.
\<close>

definition ValueToRead_set :: "ValueToRead \<Rightarrow> char list \<Rightarrow> string \<times> ValueToRead \<times> char list" where
  "ValueToRead_set v s =
     (let commaLocs = find_commas s;
          c0loc = commaLocs ! 0
      in if c0loc < 0 then (''format error, 1st comma not found'', v, s)
      else
        let s0 = s[nat c0loc := NUL];
            v0 = v\<lparr>valueTag := strncpy (valueTag v) s0 63\<rparr>;
            c1loc = commaLocs ! 1
        in if c1loc < 0 then (''format error, 2nd comma not found'', v0, s0)
        else
          let s1 = s0[nat c1loc := NUL];
              p0 = drop (nat (c0loc + 1)) s1;
              m = atoi p0;
              m1 = (if m < 1 then 1 else m);
              m2 = (if m1 > 1440 then 1440 else m1);
              v1 = v0\<lparr>minutesBetweenReads := m2\<rparr>;
              c2loc = commaLocs ! 2
          in if c2loc < 0 then (''format error, 3rd comma not found'', v1, s1)
          else
            let s2 = s1[nat c2loc := NUL];
                v2 = v1\<lparr>deviceId := strncpy (deviceId v1) (drop (nat (c1loc + 1)) s2) 37\<rparr>;
                c3loc = commaLocs ! 3
            in if c3loc < 0 then (''format error, 4th comma not found'', v2, s2)
            else
              let s3 = s2[nat c3loc := NUL];
                  v3 = v2\<lparr>serviceUuid := strncpy (serviceUuid v2) (drop (nat (c2loc + 1)) s3) 37\<rparr>;
                  v4 = v3\<lparr>characteristicUuid :=
                            strncpy (characteristicUuid v3) (drop (nat (c3loc + 1)) s3) 37\<rparr>
              in (''OK'', v4, s3))"

section \<open>The bridge sketch\<close>

subsection \<open>State and environment\<close>

text \<open>
  The globals of the sketch that the buffering, scheduling and forwarding code uses.
  \<^verbatim>\<open>nValues\<close> is the length of \<^verbatim>\<open>vals2read\<close>; \<^verbatim>\<open>minuteCounter\<close> is an \<^verbatim>\<open>unsigned long\<close>,
  32 bits on the ESP32. \<^verbatim>\<open>hub_log\<close> is not a variable of the program: it records each call
  of \<^verbatim>\<open>forwardValueToIotHub\<close>, with its argument and its result.
\<close>

record bridge =
  vals2read :: "ValueToRead list"
  measuredData :: StrQueue
  loop_buf :: "char list"
  loop_buf1 :: "char list"
  lastMin :: int
  minuteCounter :: "32 word"
  timeForScan :: bool
  hub_log :: "(string \<times> bool) list"

text \<open>
  What the outside world answers during one iteration of the loop: the minute of the clock,
  for the entry at each index the result of the connection (\<open>None\<close> when it fails, the
  value read otherwise) and the time stamp, the devices a scan reports (name and address),
  whether WiFi is down (then the minute read after the reconnection), and whether the hub
  answers 200.

  The loop formats each record with
  \<^verbatim>\<open>sprintf(buf, "%s,%s,%s", ttag, p->valueTag, buf)\<close>: the destination is also the last
  argument, and C leaves the result of such a call undefined. What the call leaves in
  \<^verbatim>\<open>buf\<close> is therefore an answer of the outside world too (of its C library): a function
  of \<^verbatim>\<open>buf\<close> as it is before the call, of the time stamp and of the entry whose
  \<^verbatim>\<open>valueTag\<close> is read. Nothing is assumed about it.
\<close>

record world =
  currentMin :: int
  ble :: "nat \<Rightarrow> string option"
  clock :: "nat \<Rightarrow> string"
  sprintf_buf :: "char list \<Rightarrow> char list \<Rightarrow> ValueToRead \<Rightarrow> char list"
  adverts :: "(string \<times> string) list"
  wifi_down :: "int option"
  hub_ok :: bool

subsection \<open>Device resolution: the scan callback\<close>

definition onResult :: "string \<Rightarrow> string \<Rightarrow> ValueToRead list \<Rightarrow> ValueToRead list" where
  "onResult devName devAddr vals =
     map (\<lambda>p. if cstr (deviceId p) = devName \<or> cstr (deviceId p) = devAddr
               then p\<lparr>deviceAddr := strncpy (deviceAddr p) devAddr 18\<rparr>
               else p) vals"

subsection \<open>Reading a value\<close>

definition readValue :: "string option \<Rightarrow> ValueToRead \<Rightarrow> char list \<Rightarrow> int \<Rightarrow> ValueToRead \<times> char list" where
  "readValue conn v2rd b maxlen =
     (case conn of
        Some val \<Rightarrow> (v2rd\<lparr>connects := connects v2rd + 1\<rparr>, strncpy b val (nat (maxlen - 1)))
      | None \<Rightarrow> (v2rd\<lparr>errors := errors v2rd OR BLESVR_ERR_CONNECTFAIL\<rparr>,
                 strncpy b ''*UNKNOWN*'' (nat (maxlen - 1))))"

subsection \<open>The minute tick\<close>

text \<open>
  \<^verbatim>\<open>long mod = minuteCounter % p->minutesBetweenReads;\<close> converts the interval to
  \<^verbatim>\<open>unsigned long\<close>, takes the unsigned remainder and converts it to \<^verbatim>\<open>long\<close>. An entry is
  read when \<^verbatim>\<open>(mod == 0) && (p->deviceAddr[0] != '\0')\<close>.
\<close>

definition due :: "32 word \<Rightarrow> ValueToRead \<Rightarrow> bool" where
  "due mc p =
     (let md = sint (mc mod (word_of_int (minutesBetweenReads p) :: 32 word))
      in md = 0 \<and> deviceAddr p ! 0 \<noteq> NUL)"

text \<open>
  The body of the \<^verbatim>\<open>if\<close>: \<^verbatim>\<open>readValue\<close>, then \<^verbatim>\<open>sprintf\<close> onto \<^verbatim>\<open>buf\<close> (the library's
  answer \<open>fmt\<close>), then \<^verbatim>\<open>measuredData.push(buf)\<close>, whatever \<^verbatim>\<open>readValue\<close> did. The result
  of \<^verbatim>\<open>push\<close> is only printed.
\<close>

definition read_entry :: "(char list \<Rightarrow> char list \<Rightarrow> ValueToRead \<Rightarrow> char list) \<Rightarrow> string option
    \<Rightarrow> string \<Rightarrow> ValueToRead \<Rightarrow> StrQueue \<times> char list
    \<Rightarrow> ValueToRead \<times> StrQueue \<times> char list" where
  "read_entry fmt conn ttag p qb =
     (case qb of (q, b) \<Rightarrow>
        (case readValue conn p b 256 of (p', b1) \<Rightarrow>
           let b2 = fmt b1 ttag p'
           in (p', snd (push q b2), b2)))"

text \<open>The \<^verbatim>\<open>for\<close> loop over \<^verbatim>\<open>vals2read\<close>, from index \<open>i\<close> on.\<close>

fun read_all_due :: "32 word \<Rightarrow> world \<Rightarrow> nat \<Rightarrow> ValueToRead list \<Rightarrow> StrQueue \<times> char list
    \<Rightarrow> ValueToRead list \<times> StrQueue \<times> char list" where
  "read_all_due mc w i [] qb = ([], qb)"
| "read_all_due mc w i (p # ps) qb =
     (if due mc p then
        (case read_entry (sprintf_buf w) (ble w i) (clock w i) p qb of (p', qb') \<Rightarrow>
           (case read_all_due mc w (Suc i) ps qb' of (ps', qb'') \<Rightarrow> (p' # ps', qb'')))
      else
        (case read_all_due mc w (Suc i) ps qb of (ps', qb'') \<Rightarrow> (p # ps', qb'')))"

definition minute_tasks :: "world \<Rightarrow> bridge \<Rightarrow> bridge" where
  "minute_tasks w st =
     (if currentMin w \<noteq> lastMin st then
        let mc = minuteCounter st + 1;
            tfs = (if mc mod 60 = 59 then True else timeForScan st)
        in (case read_all_due mc w 0 (vals2read st) (measuredData st, loop_buf st) of
              (vs, q, b) \<Rightarrow>
                st\<lparr>vals2read := vs, measuredData := q, loop_buf := b,
                   lastMin := currentMin w, minuteCounter := mc, timeForScan := tfs\<rparr>)
      else st)"

subsection \<open>Rescan, reconnection, forwarding\<close>

definition scan_task :: "world \<Rightarrow> bridge \<Rightarrow> bridge" where
  "scan_task w st =
     (if timeForScan st then
        st\<lparr>vals2read := fold (\<lambda>(devName, devAddr). onResult devName devAddr) (adverts w) (vals2read st),
           timeForScan := False\<rparr>
      else st)"

definition wifi_task :: "world \<Rightarrow> bridge \<Rightarrow> bridge" where
  "wifi_task w st = (case wifi_down w of None \<Rightarrow> st | Some m \<Rightarrow> st\<lparr>lastMin := m\<rparr>)"

text \<open>
  The forwarder: pop one record into \<^verbatim>\<open>buf1\<close>; when the pop succeeds with a non-empty
  string, hand it to the hub, and push it back when the hub does not answer 200.
\<close>

definition forwarder :: "bool \<Rightarrow> bridge \<Rightarrow> bridge" where
  "forwarder ok st =
     (if \<not> isEmpty (measuredData st) then
        let b0 = (loop_buf1 st)[0 := NUL]
        in (case pop (measuredData st) b0 384 of (sts, q, b) \<Rightarrow>
              if sts \<noteq> 0 \<and> strlen b > 0 then
                let lg = hub_log st @ [(cstr b, ok)]
                in if \<not> ok
                   then st\<lparr>measuredData := snd (push q b), loop_buf1 := b, hub_log := lg\<rparr>
                   else st\<lparr>measuredData := q, loop_buf1 := b, hub_log := lg\<rparr>
              else st\<lparr>measuredData := q, loop_buf1 := b\<rparr>)
      else st)"

text \<open>
  Forwarder iterations in a row, one for each answer of the hub, and the records the hub
  has accepted so far, in the order it accepted them.
\<close>

fun forward_all :: "bool list \<Rightarrow> bridge \<Rightarrow> bridge" where
  "forward_all [] st = st"
| "forward_all (ok # oks) st = forward_all oks (forwarder ok st)"

definition delivered :: "bridge \<Rightarrow> string list" where
  "delivered st = map fst (filter snd (hub_log st))"

text \<open>One iteration of the \<^verbatim>\<open>for (;;)\<close> of \<^verbatim>\<open>loop\<close>, and a run of iterations.\<close>

definition loop_iter :: "world \<Rightarrow> bridge \<Rightarrow> bridge" where
  "loop_iter w st = forwarder (hub_ok w) (wifi_task w (scan_task w (minute_tasks w st)))"

fun run :: "world list \<Rightarrow> bridge \<Rightarrow> bridge" where
  "run [] st = st"
| "run (w # ws) st = run ws (loop_iter w st)"

subsection \<open>Setup\<close>

text \<open>
  \<^verbatim>\<open>setup\<close> allocates one entry for each \<^verbatim>\<open>VALUEn=\<close> line found in the configuration file and
  calls \<^verbatim>\<open>set\<close> on it, whatever \<^verbatim>\<open>set\<close> answers. Its arguments here are the lines found, each
  with the memory its entry is allocated in, the memory of the queue and of the two
  buffers, and the minute of the clock.
\<close>

definition QUEUESIZE :: int where
  "QUEUESIZE = 4096"

definition bridge_setup :: "(ValueToRead \<times> char list) list \<Rightarrow> char list \<Rightarrow> char list \<Rightarrow> char list \<Rightarrow> int \<Rightarrow> bridge" where
  "bridge_setup cfg qmem b b1 minute =
     \<lparr>vals2read = map (\<lambda>(raw, line). fst (snd (ValueToRead_set (ValueToRead_new raw) line))) cfg,
      measuredData = StrQueue_new qmem QUEUESIZE,
      loop_buf = b,
      loop_buf1 = b1,
      lastMin = minute,
      minuteCounter = - 1,
      timeForScan = True,
      hub_log = []\<rparr>"

section \<open>Example states\<close>

text \<open>
  Small concrete states, used where a theorem is applied to an explicit input: a queue of
  capacity 8 holding the record \<open>A\<close>, a queue of capacity 32 holding three records, a
  queue of capacity 32 holding a long record and a short one, and a bridge whose queue
  holds the three records.
\<close>

definition queue_A :: StrQueue where
  "queue_A = snd (push (StrQueue_new (replicate 9 NUL) 8) ''A'')"

definition queue_abc :: StrQueue where
  "queue_abc = apply_ops (StrQueue_new (replicate 33 NUL) 32)
     [Push ''t,a,1'', Push ''t,b,2'', Push ''t,c,3'']"

definition queue_long :: StrQueue where
  "queue_long = apply_ops (StrQueue_new (replicate 33 NUL) 32)
     [Push ''0123456789'', Push ''next'']"

definition bridge_abc :: bridge where
  "bridge_abc =
     \<lparr>vals2read = [], measuredData = queue_abc,
      loop_buf = replicate 384 NUL, loop_buf1 = replicate 384 NUL,
      lastMin = 0, minuteCounter = 0, timeForScan = False, hub_log = []\<rparr>"

text \<open>
  The memory of an entry before its constructor runs, a resolved entry read every minute,
  a configuration of one line, and two answers of the outside world: an iteration in the
  minute of the start during which the scan reports the device, and an iteration one
  minute later in which the connection fails.

  In both, the C library formats in place: it writes the time stamp, the tag and the
  commas into \<^verbatim>\<open>buf\<close> from its start, reads the last string from \<^verbatim>\<open>buf\<close> when it
  reaches the third directive, and appends it with a terminator. The tag is read from
  the entry's character arrays as they lie in memory, up to the first null byte.
\<close>

definition sprintf_in_place :: "char list \<Rightarrow> char list \<Rightarrow> ValueToRead \<Rightarrow> char list" where
  "sprintf_in_place dst ttag p =
     (let tag = cstr (valueTag p @ deviceId p @ serviceUuid p @ characteristicUuid p
                       @ deviceAddr p);
          pre = cstr ttag @ '','' @ tag @ '','';
          cur = pre @ drop (length pre) dst;
          r = pre @ cstr cur @ [NUL]
      in r @ drop (length r) dst)"

definition raw_entry :: ValueToRead where
  "raw_entry =
     \<lparr>valueTag = replicate 64 (CHR ''?''), deviceId = replicate 40 (CHR ''?''),
      serviceUuid = replicate 40 (CHR ''?''), characteristicUuid = replicate 40 (CHR ''?''),
      deviceAddr = replicate 20 (CHR ''?''), minutesBetweenReads = 12345,
      connects = 77, errors = 255\<rparr>"

definition entry_T1 :: ValueToRead where
  "entry_T1 =
     \<lparr>valueTag = ''T1'' @ replicate 62 NUL, deviceId = ''dev'' @ replicate 37 NUL,
      serviceUuid = ''svc'' @ replicate 37 NUL, characteristicUuid = ''chr'' @ replicate 37 NUL,
      deviceAddr = ''aa:bb:cc:dd:ee:ff'' @ replicate 3 NUL, minutesBetweenReads = 1,
      connects = 0, errors = 0\<rparr>"

definition config_T1 :: "(ValueToRead \<times> char list) list" where
  "config_T1 = [(raw_entry, ''T1,5,dev,svc,chr'')]"

definition world_scan :: world where
  "world_scan =
     \<lparr>currentMin = 0, ble = (\<lambda>i. None), clock = (\<lambda>i. ''2024/01/01,00:00:00''),
      sprintf_buf = sprintf_in_place,
      adverts = [(''dev'', ''aa:bb:cc:dd:ee:ff'')], wifi_down = None, hub_ok = True\<rparr>"

definition world_tick :: world where
  "world_tick =
     \<lparr>currentMin = 1, ble = (\<lambda>i. None), clock = (\<lambda>i. ''2024/01/01,00:01:00''),
      sprintf_buf = sprintf_in_place,
      adverts = [], wifi_down = None, hub_ok = True\<rparr>"

definition bridge_T1 :: bridge where
  "bridge_T1 = bridge_setup config_T1 (replicate 4097 NUL) (replicate 384 NUL) (replicate 384 NUL) 0"

section \<open>Facts about the queue\<close>

subsection \<open>Strings, cursors, contents\<close>

lemma cstr_Nil [simp]: "cstr [] = []"
  by (simp add: cstr_def)

lemma cstr_nullfree [simp]: "NUL \<notin> set r \<Longrightarrow> cstr r = r"
  by (auto simp: cstr_def takeWhile_eq_all_conv)

lemma cstr_append_NUL [simp]: "NUL \<notin> set r \<Longrightarrow> cstr (r @ NUL # t) = r"
  by (auto simp: cstr_def takeWhile_tail)

lemma cstr_NUL [simp]: "cstr (NUL # t) = []"
  by (simp add: cstr_def)

lemma cstr_no_NUL [simp]: "NUL \<notin> set (cstr s)"
  unfolding cstr_def by (induction s) auto

lemma used_mod: "valid q \<Longrightarrow> used q = (wrptr q - rdptr q) mod maxsize q"
  unfolding valid_def used_def
  by (auto simp: mod_pos_pos_trivial) (smt (verit) mod_add_self1 mod_pos_pos_trivial)

lemma used_bounds: "valid q \<Longrightarrow> 0 \<le> used q \<and> used q \<le> maxsize q - 1"
  unfolding valid_def used_def by auto

lemma available_nonneg: "valid q \<Longrightarrow> 0 \<le> available q"
  unfolding valid_def used_def available_def by auto

lemma length_contents: "length (contents q) = nat (used q)"
  by (simp add: contents_def)

lemma contents_Nil_iff: "valid q \<Longrightarrow> contents q = [] \<longleftrightarrow> isEmpty q"
  unfolding valid_def contents_def used_def isEmpty_def by auto

subsection \<open>One byte in, one byte out\<close>

lemma put_byte_fields:
  "rdptr (put_byte q c) = rdptr q" "maxsize (put_byte q c) = maxsize q"
  by (simp_all add: put_byte_def Let_def)

lemma put_byte_used:
  assumes "valid q" "1 \<le> available q"
  shows "used (put_byte q c) = used q + 1"
  using assms unfolding valid_def available_def used_def put_byte_def Let_def
  by (auto split: if_splits)

lemma put_byte_valid:
  assumes "valid q" "1 \<le> available q"
  shows "valid (put_byte q c)"
  using assms unfolding valid_def available_def used_def put_byte_def Let_def
  by (auto split: if_splits)

lemma wrptr_mod:
  assumes "valid q"
  shows "(rdptr q + used q) mod maxsize q = wrptr q"
  using assms unfolding valid_def used_def
  by (auto simp: mod_pos_pos_trivial)

lemma ring_index_neq:
  assumes "0 < (m::int)" "0 \<le> r" "k < u" "u < nat m"
  shows "(r + int k) mod m \<noteq> (r + int u) mod m"
proof
  assume "(r + int k) mod m = (r + int u) mod m"
  then have "(int u - int k) mod m = 0"
    by (metis add_diff_cancel_left' diff_self mod_0 mod_diff_cong)
  moreover have "0 < int u - int k" "int u - int k < m" using assms by auto
  ultimately show False by (simp add: mod_pos_pos_trivial)
qed

lemma put_byte_contents:
  assumes "valid q" "1 \<le> available q"
  shows "contents (put_byte q c) = contents q @ [c]"
proof -
  let ?u = "nat (used q)"
  have u: "0 \<le> used q" "used q < maxsize q - 1" 
    using assms used_bounds[of q] by (auto simp: available_def)
  have m: "0 < maxsize q" "0 \<le> rdptr q" "0 \<le> wrptr q" "wrptr q < maxsize q"
    "length (buf q) = nat (maxsize q + 1)" using assms by (auto simp: valid_def)
  have w: "(rdptr q + int ?u) mod maxsize q = wrptr q" using wrptr_mod[OF assms(1)] u by simp
  have "nat (used (put_byte q c)) = Suc ?u"
    using put_byte_used[OF assms] u by simp
  then have "contents (put_byte q c) =
      map (\<lambda>k. (buf q)[nat (wrptr q) := c] ! nat ((rdptr q + int k) mod maxsize q)) [0..<?u]
      @ [(buf q)[nat (wrptr q) := c] ! nat ((rdptr q + int ?u) mod maxsize q)]"
    by (simp add: contents_def put_byte_fields) (simp add: put_byte_def Let_def)
  also have "(buf q)[nat (wrptr q) := c] ! nat ((rdptr q + int ?u) mod maxsize q) = c"
    using w m by simp
  also have "map (\<lambda>k. (buf q)[nat (wrptr q) := c] ! nat ((rdptr q + int k) mod maxsize q)) [0..<?u]
     = map (\<lambda>k. buf q ! nat ((rdptr q + int k) mod maxsize q)) [0..<?u]"
  proof (rule map_cong[OF refl])
    fix k assume "k \<in> set [0..<?u]"
    then have k: "k < ?u" by simp
    have "(rdptr q + int k) mod maxsize q \<noteq> (rdptr q + int ?u) mod maxsize q"
      using ring_index_neq[OF m(1) m(2) k] u by simp
    then have "nat ((rdptr q + int k) mod maxsize q) \<noteq> nat (wrptr q)"
      using w m by (metis nat_eq_iff2 pos_mod_sign)
    then show "(buf q)[nat (wrptr q) := c] ! nat ((rdptr q + int k) mod maxsize q)
            = buf q ! nat ((rdptr q + int k) mod maxsize q)" by simp
  qed
  finally show ?thesis by (simp add: contents_def)
qed

lemma get_byte_fields:
  "wrptr (snd (get_byte q)) = wrptr q" "maxsize (snd (get_byte q)) = maxsize q"
  "buf (snd (get_byte q)) = buf q" "fst (get_byte q) = buf q ! nat (rdptr q)"
  by (simp_all add: get_byte_def Let_def)

lemma get_byte_valid:
  assumes "valid q"
  shows "valid (snd (get_byte q))"
  using assms unfolding valid_def get_byte_def Let_def by auto

lemma get_byte_used:
  assumes "valid q" "\<not> isEmpty q"
  shows "used (snd (get_byte q)) = used q - 1"
  using assms unfolding valid_def used_def get_byte_def Let_def isEmpty_def
  by (auto split: if_splits)

lemma get_byte_contents:
  assumes "valid q" "\<not> isEmpty q"
  shows "contents q = fst (get_byte q) # contents (snd (get_byte q))"
proof -
  let ?q' = "snd (get_byte q)"
  have m: "0 < maxsize q" "0 \<le> rdptr q" "rdptr q < maxsize q" using assms by (auto simp: valid_def)
  have u: "0 < used q" using assms unfolding valid_def used_def isEmpty_def by auto
  then obtain n where n: "nat (used q) = Suc n" by (metis Suc_pred' zero_less_nat_eq)
  then have n': "nat (used ?q') = n" using get_byte_used[OF assms] by simp
  have r': "rdptr ?q' = (rdptr q + 1) mod maxsize q"
  proof (cases "rdptr q + 1 = maxsize q")
    case True
    then show ?thesis unfolding get_byte_def Let_def by simp
  next
    case False
    then show ?thesis using m unfolding get_byte_def Let_def by (simp add: mod_pos_pos_trivial)
  qed
  have "contents q = buf q ! nat (rdptr q mod maxsize q)
      # map (\<lambda>k. buf q ! nat ((rdptr q + int (Suc k)) mod maxsize q)) [0..<n]"
    unfolding contents_def n by (simp add: upt_conv_Cons map_Suc_upt[symmetric] del: upt_Suc)
  also have "map (\<lambda>k. buf q ! nat ((rdptr q + int (Suc k)) mod maxsize q)) [0..<n] = contents ?q'"
    unfolding contents_def n' get_byte_fields r'
    by (rule map_cong[OF refl]) (simp add: mod_simps ac_simps)
  finally show ?thesis using m by (simp add: get_byte_fields mod_pos_pos_trivial)
qed


lemma put_byte_available:
  assumes "valid q" "1 \<le> available q"
  shows "available (put_byte q c) = available q - 1"
  using put_byte_used[OF assms] by (simp add: available_def put_byte_fields)

lemma push_loop_refine:
  assumes "valid q" "int (length cs) \<le> available q"
  shows "valid (push_loop q cs) \<and> contents (push_loop q cs) = contents q @ cs
       \<and> rdptr (push_loop q cs) = rdptr q \<and> maxsize (push_loop q cs) = maxsize q
       \<and> used (push_loop q cs) = used q + int (length cs)"
  using assms
proof (induction cs arbitrary: q)
  case Nil
  then show ?case by simp
next
  case (Cons c cs)
  have a: "1 \<le> available q" using Cons.prems by simp
  note v = put_byte_valid[OF Cons.prems(1) a, of c]
  have "int (length cs) \<le> available (put_byte q c)"
    using Cons.prems put_byte_available[OF Cons.prems(1) a, of c] by simp
  from Cons.IH[OF v this] show ?case
    by (simp add: put_byte_contents[OF Cons.prems(1) a] put_byte_fields
        put_byte_used[OF Cons.prems(1) a])
qed

lemma push_full: "strlen s + 1 > available q \<Longrightarrow> push q s = (0, q)"
  by (simp add: push_def Let_def)

lemma push_ok:
  assumes "valid q" "strlen s + 1 \<le> available q"
  shows "fst (push q s) = 1" "valid (snd (push q s))"
    "contents (snd (push q s)) = contents q @ cstr s @ [NUL]"
    "rdptr (snd (push q s)) = rdptr q" "maxsize (snd (push q s)) = maxsize q"
    "used (snd (push q s)) = used q + strlen s + 1"
proof -
  have l: "int (length (cstr s @ [NUL])) \<le> available q"
    using assms(2) by (simp add: strlen_def)
  have p: "push q s = (1, push_loop q (cstr s @ [NUL]))"
    using assms(2) by (simp add: push_def Let_def)
  note r = push_loop_refine[OF assms(1) l]
  show "fst (push q s) = 1" by (simp add: p)
  show "valid (snd (push q s))" using r by (simp add: p)
  show "contents (snd (push q s)) = contents q @ cstr s @ [NUL]" using r by (simp add: p)
  show "rdptr (snd (push q s)) = rdptr q" using r by (simp add: p)
  show "maxsize (snd (push q s)) = maxsize q" using r by (simp add: p)
  show "used (snd (push q s)) = used q + strlen s + 1" using r by (simp add: p strlen_def)
qed

lemma store_Nil [simp]: "store s i [] = s"
  by (simp add: store_def)

lemma store_single: "i < length s \<Longrightarrow> s[i := c] = store s i [c]"
  by (simp add: store_def upd_conv_take_nth_drop)

lemma store_Cons: "i < length s \<Longrightarrow> store (s[i := c]) (Suc i) w = store s i (c # w)"
  by (simp add: store_def upd_conv_take_nth_drop take_Suc_conv_app_nth add.commute)

lemma store_two: "Suc i < length s \<Longrightarrow> s[i := c, Suc i := d] = store s i [c, d]"
  using store_Cons[of i s c "[d]"] store_single[of "Suc i" "s[i := c]" d] by simp

lemma length_store: "i + length w \<le> length s \<Longrightarrow> length (store s i w) = length s"
  by (simp add: store_def)

lemma pop_abs_length: "length (fst (pop_abs cs n)) \<le> (if n = 0 then 0 else Suc n)"
  by (induction cs n rule: pop_abs.induct) (auto split: prod.splits)

lemma pop_loop_unfold:
  "pop_loop q s i maxlen =
     (if i < maxlen - 1 then
        if fst (get_byte q) = NUL then (snd (get_byte q), s[nat i := NUL])
        else if rdptr (snd (get_byte q)) = wrptr (snd (get_byte q)) \<or> i = maxlen - 2
          then (snd (get_byte q), s[nat i := fst (get_byte q), nat (i + 1) := NUL])
        else pop_loop (snd (get_byte q)) (s[nat i := fst (get_byte q)]) (i + 1) maxlen
      else (q, s))"
  by (subst pop_loop.simps) (simp add: case_prod_beta Let_def)

lemma pop_loop_refine:
  assumes "valid q" "\<not> isEmpty q" "0 \<le> i" "maxlen \<le> int (length s)"
  shows "valid (fst (pop_loop q s i maxlen))
       \<and> contents (fst (pop_loop q s i maxlen)) = snd (pop_abs (contents q) (nat (maxlen - 1 - i)))
       \<and> snd (pop_loop q s i maxlen) = store s (nat i) (fst (pop_abs (contents q) (nat (maxlen - 1 - i))))
       \<and> wrptr (fst (pop_loop q s i maxlen)) = wrptr q
       \<and> buf (fst (pop_loop q s i maxlen)) = buf q
       \<and> maxsize (fst (pop_loop q s i maxlen)) = maxsize q"
  using assms
proof (induction q s i maxlen rule: pop_loop.induct)
  case (1 q s i maxlen)
  obtain cs where cs: "contents q = cs" by simp
  show ?case
  proof (cases "i < maxlen - 1")
    case False
    then have n: "nat (maxlen - 1 - i) = 0" by simp
    have "contents q \<noteq> []" using 1(2,3) contents_Nil_iff by simp
    then obtain c t where "contents q = c # t" by (cases "contents q") auto
    moreover have "pop_loop q s i maxlen = (q, s)"
      using False by (subst pop_loop_unfold) simp
    ultimately show ?thesis using 1(2) by (simp add: n)
  next
    case True
    let ?c = "fst (get_byte q)" and ?q = "snd (get_byte q)"
    have g: "get_byte q = (?c, ?q)" by simp
    have c: "contents q = ?c # contents ?q" by (rule get_byte_contents[OF 1(2,3)])
    have v: "valid ?q" by (rule get_byte_valid[OF 1(2)])
    define n where "n = nat (maxlen - 2 - i)"
    have n: "nat (maxlen - 1 - i) = Suc n" "n = nat (maxlen - 2 - i)"
      using True by (auto simp: n_def)
    have i: "nat i < length s" "Suc (nat i) < length s" using True 1(4,5) by auto
    have i1: "nat (i + 1) = Suc (nat i)" using 1(4) by simp
    have e: "contents ?q = [] \<longleftrightarrow> rdptr ?q = wrptr ?q"
      using contents_Nil_iff[OF v] by (auto simp: isEmpty_def)
    show ?thesis
    proof (cases "?c = NUL \<or> rdptr ?q = wrptr ?q \<or> i = maxlen - 2")
      case stop: True
      have n0: "i = maxlen - 2 \<Longrightarrow> n = 0" using n by simp
      consider (a) "?c = NUL" | (b) "?c \<noteq> NUL" "rdptr ?q = wrptr ?q"
        | (d) "?c \<noteq> NUL" "rdptr ?q \<noteq> wrptr ?q" "i = maxlen - 2"
        using stop by blast
      then show ?thesis
      proof cases
        case a
        have "pop_loop q s i maxlen = (?q, store s (nat i) [NUL])"
          using True a by (subst pop_loop_unfold) (simp add: store_single[OF i(1)])
        then show ?thesis using v a
          by (simp add: c n(1) get_byte_fields)
      next
        case b
        have "pop_loop q s i maxlen = (?q, store s (nat i) [?c, NUL])"
          using True b i1 by (subst pop_loop_unfold) (simp add: store_two[OF i(2)])
        then show ?thesis using v b e
          by (simp add: c n(1) get_byte_fields)
      next
        case d
        have "pop_loop q s i maxlen = (?q, store s (nat i) [?c, NUL])"
          using True d(1,2) i1 by (subst pop_loop_unfold) (simp add: store_two[OF i(2)] d(3)[symmetric])
        moreover have "n = 0" using d n0 by simp
        ultimately show ?thesis using v d(1,2) e
          by (simp add: c n(1) get_byte_fields)
      qed
    next
      case go: False
      then have ne: "\<not> isEmpty ?q" by (simp add: isEmpty_def)
      have n1: "n \<noteq> 0" using go n True by auto
      have l: "maxlen \<le> int (length (s[nat i := ?c]))" using 1(5) by simp
      have "0 \<le> i + 1" using 1(4) by simp
      have g1: "?c \<noteq> NUL" and g2: "rdptr ?q \<noteq> wrptr ?q" and g3: "i \<noteq> maxlen - 2"
        using go by auto
      note IH' = 1(1)[OF True refl g[symmetric] refl g1 g2 g3 v ne \<open>0 \<le> i + 1\<close> l]
      have n2: "nat (maxlen - 1 - (i + 1)) = n" using n by simp
      have unf: "pop_loop q s i maxlen = pop_loop ?q (s[nat i := ?c]) (i + 1) maxlen"
        using go True by (subst pop_loop_unfold) simp
      have ce: "contents ?q \<noteq> []" using e go by simp
      have pa: "pop_abs (contents q) (Suc n)
          = (?c # fst (pop_abs (contents ?q) n), snd (pop_abs (contents ?q) n))"
        using g1 ce n1 by (simp add: c case_prod_beta)
      have st: "store (s[nat i := ?c]) (Suc (nat i)) w = store s (nat i) (?c # w)" for w
        by (rule store_Cons[OF i(1)])
      show ?thesis
        unfolding unf n(1) pa using IH'[unfolded n2 i1 st]
        by (simp add: get_byte_fields)
    qed
  qed
qed

subsection \<open>Whole calls of push and pop\<close>

lemma pop_refine:
  assumes "valid q" "\<not> isEmpty q" "1 \<le> maxlen" "maxlen \<le> int (length s)"
  shows "fst (pop q s maxlen) = 1"
    and "valid (fst (snd (pop q s maxlen)))"
    and "contents (fst (snd (pop q s maxlen))) = snd (pop_abs (contents q) (nat (maxlen - 1)))"
    and "snd (snd (pop q s maxlen)) = store (s[0 := NUL]) 0 (fst (pop_abs (contents q) (nat (maxlen - 1))))"
    and "wrptr (fst (snd (pop q s maxlen))) = wrptr q"
    and "buf (fst (snd (pop q s maxlen))) = buf q"
    and "maxsize (fst (snd (pop q s maxlen))) = maxsize q"
proof -
  have l: "maxlen \<le> int (length (s[0 := NUL]))" using assms(4) by simp
  have p: "pop q s maxlen = (1, pop_loop q (s[0 := NUL]) 0 maxlen)"
    using assms(2,3) by (simp add: pop_def Let_def case_prod_beta)
  note r = pop_loop_refine[OF assms(1,2) order_refl l]
  show "fst (pop q s maxlen) = 1" by (simp add: p)
  show "valid (fst (snd (pop q s maxlen)))" using r by (simp add: p)
  show "contents (fst (snd (pop q s maxlen))) = snd (pop_abs (contents q) (nat (maxlen - 1)))"
    using r by (simp add: p)
  show "snd (snd (pop q s maxlen)) = store (s[0 := NUL]) 0 (fst (pop_abs (contents q) (nat (maxlen - 1))))"
    using r by (simp add: p)
  show "wrptr (fst (snd (pop q s maxlen))) = wrptr q" using r by (simp add: p)
  show "buf (fst (snd (pop q s maxlen))) = buf q" using r by (simp add: p)
  show "maxsize (fst (snd (pop q s maxlen))) = maxsize q" using r by (simp add: p)
qed

lemma pop_abs_complete:
  "NUL \<notin> set r \<Longrightarrow> length r < n \<Longrightarrow> pop_abs (r @ NUL # t) n = (r @ [NUL], t)"
proof (induction r arbitrary: n)
  case Nil
  then show ?case by (cases n) auto
next
  case (Cons c r)
  then obtain m where m: "n = Suc m" "length r < m" by (cases n) auto
  with Cons show ?case by auto
qed

lemma pop_abs_trunc:
  "NUL \<notin> set r \<Longrightarrow> 0 < n \<Longrightarrow> n \<le> length r
    \<Longrightarrow> pop_abs (r @ NUL # t) n = (take n r @ [NUL], drop n r @ NUL # t)"
proof (induction r arbitrary: n)
  case Nil
  then show ?case by simp
next
  case (Cons c r)
  then obtain m where m: "n = Suc m" "m \<le> length r" by (cases n) auto
  show ?case
  proof (cases "m = 0")
    case True
    with m Cons.prems show ?thesis by auto
  next
    case False
    with m Cons show ?thesis by auto
  qed
qed

lemma cstr_store0: "NUL \<notin> set r \<Longrightarrow> cstr (store s 0 (r @ [NUL])) = r"
  by (simp add: store_def)

lemma take_store0: "length w \<le> length s \<Longrightarrow> take (length w) (store s 0 w) = w"
  by (simp add: store_def)

lemma used_contents: "valid q \<Longrightarrow> used q = int (length (contents q))"
  using used_bounds[of q] by (simp add: length_contents)

lemma pop_complete:
  assumes "valid q" "contents q = r @ NUL # t" "NUL \<notin> set r"
    "int (length r) + 1 < maxlen" "maxlen \<le> int (length s)"
  shows "fst (pop q s maxlen) = 1"
    and "valid (fst (snd (pop q s maxlen)))"
    and "contents (fst (snd (pop q s maxlen))) = t"
    and "snd (snd (pop q s maxlen)) = store (s[0 := NUL]) 0 (r @ [NUL])"
    and "cstr (snd (snd (pop q s maxlen))) = r"
    and "maxsize (fst (snd (pop q s maxlen))) = maxsize q"
proof -
  have ne: "\<not> isEmpty q" using contents_Nil_iff[OF assms(1)] assms(2) by simp
  have m: "1 \<le> maxlen" using assms(4) by simp
  have a: "pop_abs (contents q) (nat (maxlen - 1)) = (r @ [NUL], t)"
    unfolding assms(2) using assms(3,4) by (intro pop_abs_complete) auto
  note r = pop_refine[OF assms(1) ne m assms(5)]
  show "fst (pop q s maxlen) = 1" by (rule r)
  show "valid (fst (snd (pop q s maxlen)))" by (rule r)
  show "contents (fst (snd (pop q s maxlen))) = t" using r(3) by (simp add: a)
  show s: "snd (snd (pop q s maxlen)) = store (s[0 := NUL]) 0 (r @ [NUL])" using r(4) by (simp add: a)
  show "cstr (snd (snd (pop q s maxlen))) = r" unfolding s using assms(3) by (rule cstr_store0)
  show "maxsize (fst (snd (pop q s maxlen))) = maxsize q" by (rule r)
qed

lemma pop_truncated:
  assumes "valid q" "contents q = r @ NUL # t" "NUL \<notin> set r"
    "1 \<le> maxlen" "maxlen - 1 \<le> int (length r)" "maxlen \<le> int (length s)"
  shows "fst (pop q s maxlen) = 1"
    and "valid (fst (snd (pop q s maxlen)))"
    and "contents (fst (snd (pop q s maxlen))) = drop (nat (maxlen - 1)) r @ NUL # t"
    and "take (nat maxlen) (snd (snd (pop q s maxlen))) = take (nat (maxlen - 1)) r @ [NUL]"
    and "cstr (snd (snd (pop q s maxlen))) = take (nat (maxlen - 1)) r"
    and "maxsize (fst (snd (pop q s maxlen))) = maxsize q"
proof -
  have ne: "\<not> isEmpty q" using contents_Nil_iff[OF assms(1)] assms(2) by simp
  note p = pop_refine[OF assms(1) ne assms(4) assms(6)]
  let ?n = "nat (maxlen - 1)"
  have nt: "NUL \<notin> set (take ?n r)" using assms(3) by (auto dest: in_set_takeD)
  have a: "pop_abs (contents q) ?n = (if ?n = 0 then ([], r @ NUL # t)
             else (take ?n r @ [NUL], drop ?n r @ NUL # t))"
  proof (cases "?n = 0")
    case True
    then show ?thesis unfolding assms(2) by (cases r) auto
  next
    case False
    then show ?thesis unfolding assms(2) using assms(3,5) by (simp add: pop_abs_trunc)
  qed
  have s: "snd (snd (pop q s maxlen)) = store (s[0 := NUL]) 0 (take ?n r @ [NUL])"
  proof (cases "?n = 0")
    case True
    have "s \<noteq> []" using assms(4,6) by auto
    then have e: "store (s[0 := NUL]) 0 [NUL] = s[0 := NUL]"
      by (cases s) (auto simp: store_def)
    have "fst (pop_abs (contents q) ?n) = []" unfolding a using True by simp
    then have "snd (snd (pop q s maxlen)) = s[0 := NUL]" using p(4) by simp
    then show ?thesis using True by (simp add: e)
  next
    case False
    then show ?thesis using p(4) by (simp add: a)
  qed
  show "fst (pop q s maxlen) = 1" by (rule p)
  show "valid (fst (snd (pop q s maxlen)))" by (rule p)
  show "contents (fst (snd (pop q s maxlen))) = drop ?n r @ NUL # t"
    using p(3) by (simp add: a)
  show "cstr (snd (snd (pop q s maxlen))) = take ?n r"
    unfolding s using nt by (rule cstr_store0)
  have l1: "length (take ?n r @ [NUL]) = nat maxlen" using assms(4,5) by simp
  have l2: "length (take ?n r @ [NUL]) \<le> length (s[0 := NUL])" using assms(4,5,6) by simp
  show "take (nat maxlen) (snd (snd (pop q s maxlen))) = take ?n r @ [NUL]"
    unfolding s using take_store0[OF l2] unfolding l1 .
  show "maxsize (fst (snd (pop q s maxlen))) = maxsize q" by (rule p)
qed

subsection \<open>The invariant is kept\<close>

lemma pop_loop_valid:
  "valid q \<Longrightarrow> valid (fst (pop_loop q s i maxlen)) \<and> maxsize (fst (pop_loop q s i maxlen)) = maxsize q"
proof (induction q s i maxlen rule: pop_loop.induct)
  case (1 q s i maxlen)
  let ?c = "fst (get_byte q)" and ?q = "snd (get_byte q)"
  have v: "valid ?q" by (rule get_byte_valid[OF 1(2)])
  show ?case
  proof (cases "i < maxlen - 1 \<and> ?c \<noteq> NUL \<and> rdptr ?q \<noteq> wrptr ?q \<and> i \<noteq> maxlen - 2")
    case True
    then have "pop_loop q s i maxlen = pop_loop ?q (s[nat i := ?c]) (i + 1) maxlen"
      by (subst pop_loop_unfold) simp
    moreover have "valid (fst (pop_loop ?q (s[nat i := ?c]) (i + 1) maxlen))
      \<and> maxsize (fst (pop_loop ?q (s[nat i := ?c]) (i + 1) maxlen)) = maxsize ?q"
      using True by (intro 1(1)[OF _ refl _ refl _ _ _ v]) auto
    ultimately show ?thesis by (simp add: get_byte_fields)
  next
    case False
    then have "fst (pop_loop q s i maxlen) = q \<or> fst (pop_loop q s i maxlen) = ?q"
      by (subst (1 2) pop_loop_unfold) auto
    then show ?thesis using v 1(2) by (auto simp: get_byte_fields)
  qed
qed

lemma pop_valid:
  "valid q \<Longrightarrow> valid (fst (snd (pop q s maxlen))) \<and> maxsize (fst (snd (pop q s maxlen))) = maxsize q"
  using pop_loop_valid[of q "s[0 := NUL]" 0 maxlen]
  by (simp add: pop_def Let_def case_prod_beta)

lemma push_valid:
  "valid q \<Longrightarrow> valid (snd (push q s)) \<and> maxsize (snd (push q s)) = maxsize q"
proof (cases "strlen s + 1 > available q")
  case True
  assume "valid q"
  then show ?thesis using True by (simp add: push_full)
next
  case False
  assume "valid q"
  then show ?thesis using False push_ok(2,5)[of q s] by simp
qed

lemma makeEmpty_valid:
  "valid q \<Longrightarrow> valid (makeEmpty q) \<and> maxsize (makeEmpty q) = maxsize q"
  by (simp add: valid_def makeEmpty_def)

lemma apply_op_valid:
  "valid q \<Longrightarrow> valid (apply_op q x) \<and> maxsize (apply_op q x) = maxsize q"
  by (cases x) (simp_all add: push_valid pop_valid makeEmpty_valid)

lemma apply_ops_valid:
  "valid q \<Longrightarrow> valid (apply_ops q ops) \<and> maxsize (apply_ops q ops) = maxsize q"
  unfolding apply_ops_def
proof (induction ops arbitrary: q)
  case Nil
  then show ?case by simp
next
  case (Cons x ops)
  from apply_op_valid[OF Cons.prems, of x] Cons.IH[of "apply_op q x"]
  show ?case by simp
qed

lemma StrQueue_new_valid:
  "1 \<le> C \<Longrightarrow> length mem = nat (C + 1) \<Longrightarrow> valid (StrQueue_new mem C)"
  by (simp add: valid_def StrQueue_new_def)

section \<open>The claims about the queue\<close>

text \<open>
  Claim C1. A queue is built by the constructor with a capacity \<open>C\<close> of at least 1 and the
  \<open>C + 1\<close> bytes it allocates. After any sequence of pushes and pops (and calls of
  \<^verbatim>\<open>makeEmpty\<close>), \<^verbatim>\<open>used()\<close> is at most
  \<open>C - 1\<close>; and a push of a string whose length with its terminator exceeds
  \<^verbatim>\<open>available()\<close> returns 0 and leaves the whole queue (cursors, bytes, hence \<^verbatim>\<open>used()\<close>) as
  it was.
\<close>

theorem C1_used_below_capacity:
  assumes "1 \<le> C" and "length mem = nat (C + 1)"
    and "q = apply_ops (StrQueue_new mem C) ops"
  shows "used q \<le> C - 1
       \<and> (strlen s + 1 > available q \<longrightarrow> push q s = (0, q))"
proof -
  have "valid q \<and> maxsize q = maxsize (StrQueue_new mem C)"
    unfolding assms(3) by (rule apply_ops_valid[OF StrQueue_new_valid[OF assms(1,2)]])
  then have "valid q" "maxsize q = C" by (simp_all add: StrQueue_new_def)
  then show ?thesis using used_bounds[of q] by (simp add: push_full)
qed

subsection \<open>The destination of pop\<close>

lemma set_take_update: "i < n \<Longrightarrow> i < length s \<Longrightarrow> x \<in> set (take n (s[i := x]))"
  by (simp add: take_update_swap set_update_memI)

lemma pop_loop_nul:
  "0 \<le> i \<Longrightarrow> i < maxlen - 1 \<Longrightarrow> maxlen \<le> int (length s)
     \<Longrightarrow> NUL \<in> set (take (nat maxlen) (snd (pop_loop q s i maxlen)))"
proof (induction q s i maxlen rule: pop_loop.induct)
  case (1 q s i maxlen)
  let ?c = "fst (get_byte q)" and ?q = "snd (get_byte q)"
  have i: "nat i < nat maxlen" "nat i < length s" "nat (i + 1) < nat maxlen"
    "nat (i + 1) < length (s[nat i := ?c])"
    using 1(2,3,4) by auto
  show ?case
  proof (cases "?c \<noteq> NUL \<and> rdptr ?q \<noteq> wrptr ?q \<and> i \<noteq> maxlen - 2")
    case True
    then have "pop_loop q s i maxlen = pop_loop ?q (s[nat i := ?c]) (i + 1) maxlen"
      using 1(3) by (subst pop_loop_unfold) simp
    moreover have "NUL \<in> set (take (nat maxlen) (snd (pop_loop ?q (s[nat i := ?c]) (i + 1) maxlen)))"
      using True 1(2,3,4) by (intro 1(1)[OF _ refl _ refl]) auto
    ultimately show ?thesis by simp
  next
    case False
    then consider "?c = NUL" | "?c \<noteq> NUL" "rdptr ?q = wrptr ?q \<or> i = maxlen - 2" by blast
    then show ?thesis
    proof cases
      case 1
      then have "pop_loop q s i maxlen = (?q, s[nat i := NUL])"
        using \<open>i < maxlen - 1\<close> by (subst pop_loop_unfold) simp
      then show ?thesis using set_take_update[OF i(1,2)] by simp
    next
      case 2
      then have "pop_loop q s i maxlen = (?q, s[nat i := ?c, nat (i + 1) := NUL])"
        using \<open>i < maxlen - 1\<close> by (subst pop_loop_unfold) auto
      then show ?thesis using set_take_update[OF i(3,4)] by simp
    qed
  qed
qed

lemma cstr_short: "NUL \<in> set (take n s) \<Longrightarrow> length (cstr s) < n"
proof (induction s arbitrary: n)
  case Nil
  then show ?case by simp
next
  case (Cons c s)
  then show ?case by (cases n) (auto simp: cstr_def)
qed

text \<open>
  Claim C10. For every call of \<^verbatim>\<open>pop\<close> with a capacity of at least 1 (and a destination of
  at least that many bytes), whatever the queue, a null byte stands among the first
  \<^verbatim>\<open>maxlen\<close> bytes of the destination afterwards, so the destination holds a terminated
  string of fewer than \<^verbatim>\<open>maxlen\<close> characters; on an empty queue \<^verbatim>\<open>pop\<close> returns 0 and
  the destination holds the empty string.
\<close>

theorem C10_pop_terminates_destination:
  assumes "1 \<le> maxlen" and "maxlen \<le> int (length s)"
  shows "NUL \<in> set (take (nat maxlen) (snd (snd (pop q s maxlen))))
       \<and> strlen (snd (snd (pop q s maxlen))) < maxlen
       \<and> (isEmpty q \<longrightarrow> fst (pop q s maxlen) = 0 \<and> cstr (snd (snd (pop q s maxlen))) = [])"
proof -
  have s0: "NUL \<in> set (take (nat maxlen) (s[0 := NUL]))"
    using assms by (intro set_take_update) auto
  have n: "NUL \<in> set (take (nat maxlen) (snd (snd (pop q s maxlen))))"
  proof (cases "isEmpty q")
    case True
    then show ?thesis using assms(1) s0 by (simp add: pop_def)
  next
    case False
    show ?thesis
    proof (cases "maxlen = 1")
      case True
      then have "pop_loop q (s[0 := NUL]) 0 maxlen = (q, s[0 := NUL])"
        by (subst pop_loop_unfold) simp
      then show ?thesis using False assms(1) s0 by (simp add: pop_def)
    next
      case m: False
      have "NUL \<in> set (take (nat maxlen) (snd (pop_loop q (s[0 := NUL]) 0 maxlen)))"
        using assms m by (intro pop_loop_nul) auto
      then show ?thesis using False assms(1) by (simp add: pop_def case_prod_beta)
    qed
  qed
  have e: "isEmpty q \<Longrightarrow> cstr (snd (snd (pop q s maxlen))) = []"
    using assms by (cases s) (auto simp: pop_def)
  have "isEmpty q \<Longrightarrow> fst (pop q s maxlen) = 0" by (simp add: pop_def Let_def)
  with n e cstr_short[OF n] assms(1) show ?thesis by (simp add: strlen_def)
qed


text \<open>The theorem at a queue of capacity 8 after three pushes and a pop, and a push that does not fit.\<close>

theorem C1_used_below_capacity_witness:
  "(1::int) \<le> 8 \<and> length (replicate 9 NUL) = nat (8 + 1)
   \<and> used (apply_ops (StrQueue_new (replicate 9 NUL) 8)
         [Push ''abc'', Push ''de'', Pop (replicate 8 NUL) 8, Push ''fgh'']) \<le> 8 - 1
   \<and> strlen ''ijkl'' + 1 > available (apply_ops (StrQueue_new (replicate 9 NUL) 8)
         [Push ''abc'', Push ''de'', Pop (replicate 8 NUL) 8, Push ''fgh''])
   \<and> push (apply_ops (StrQueue_new (replicate 9 NUL) 8)
         [Push ''abc'', Push ''de'', Pop (replicate 8 NUL) 8, Push ''fgh'']) ''ijkl''
       = (0, apply_ops (StrQueue_new (replicate 9 NUL) 8)
         [Push ''abc'', Push ''de'', Pop (replicate 8 NUL) 8, Push ''fgh''])"
proof -
  have h1: "(1::int) \<le> 8" by simp
  have h2: "length (replicate 9 NUL) = nat (8 + 1)" by simp
  have h3: "strlen ''ijkl'' + 1 > available (apply_ops (StrQueue_new (replicate 9 NUL) 8)
         [Push ''abc'', Push ''de'', Pop (replicate 8 NUL) 8, Push ''fgh''])"
    by code_simp
  show ?thesis
    using C1_used_below_capacity[OF h1 h2 refl, of "[Push ''abc'', Push ''de'', Pop (replicate 8 NUL) 8, Push ''fgh'']" "''ijkl''"] h3
    by simp
qed

text \<open>The theorem at an empty queue and a destination of four bytes.\<close>

theorem C10_pop_terminates_destination_witness:
  "(1::int) \<le> 4 \<and> (4::int) \<le> int (length ''####'')
   \<and> NUL \<in> set (take (nat 4) (snd (snd (pop (StrQueue_new (replicate 9 NUL) 8) ''####'' 4))))
   \<and> strlen (snd (snd (pop (StrQueue_new (replicate 9 NUL) 8) ''####'' 4))) < 4
   \<and> isEmpty (StrQueue_new (replicate 9 NUL) 8)
   \<and> fst (pop (StrQueue_new (replicate 9 NUL) 8) ''####'' 4) = 0
   \<and> cstr (snd (snd (pop (StrQueue_new (replicate 9 NUL) 8) ''####'' 4))) = []"
proof -
  have h1: "(1::int) \<le> 4" by simp
  have h2: "(4::int) \<le> int (length ''####'')" by simp
  have h3: "isEmpty (StrQueue_new (replicate 9 NUL) 8)" by (simp add: isEmpty_def StrQueue_new_def)
  show ?thesis
    using C10_pop_terminates_destination[OF h1 h2, of "StrQueue_new (replicate 9 NUL) 8"] h3
    by simp
qed

lemma available_contents:
  "valid q \<Longrightarrow> available q = maxsize q - int (length (contents q)) - 1"
  by (simp add: available_def used_contents)

text \<open>
  Claim C2, as amended. On an empty queue, for every record \<open>r\<close> without null bytes whose
  length plus one is at most \<^verbatim>\<open>available()\<close>, pushing \<open>r\<close> and then popping with a
  capacity above \<open>length r + 1\<close> succeeds, writes \<open>r\<close> and its terminator into the
  destination, and leaves the queue empty again.
\<close>

theorem C2_round_trip_on_empty_queue:
  assumes "valid q" and "isEmpty q" and "NUL \<notin> set r"
    and "int (length r) + 1 \<le> available q"
    and "int (length r) + 1 < maxlen" and "maxlen \<le> int (length s)"
  shows "fst (push q r) = 1
       \<and> fst (pop (snd (push q r)) s maxlen) = 1
       \<and> cstr (snd (snd (pop (snd (push q r)) s maxlen))) = r
       \<and> take (length r + 1) (snd (snd (pop (snd (push q r)) s maxlen))) = r @ [NUL]
       \<and> isEmpty (fst (snd (pop (snd (push q r)) s maxlen)))"
proof -
  let ?q1 = "snd (push q r)"
  have a: "strlen r + 1 \<le> available q" using assms(3,4) by (simp add: strlen_def)
  have e: "contents q = []" using contents_Nil_iff[OF assms(1)] assms(2) by simp
  have v1: "valid ?q1" by (rule push_ok(2)[OF assms(1) a])
  have c1: "contents ?q1 = r @ NUL # []"
    using push_ok(3)[OF assms(1) a] assms(3) by (simp add: e)
  note p = pop_complete[OF v1 c1 assms(3,5,6)]
  have "length (r @ [NUL]) \<le> length (s[0 := NUL])" using assms(5,6) by simp
  from take_store0[OF this]
  have "take (length r + 1) (snd (snd (pop ?q1 s maxlen))) = r @ [NUL]"
    unfolding p(4) by simp
  moreover have "isEmpty (fst (snd (pop ?q1 s maxlen)))"
    using contents_Nil_iff[OF p(2)] p(3) by simp
  ultimately show ?thesis using push_ok(1)[OF assms(1) a] p(1,5) by simp
qed

text \<open>
  Claim C4. The record \<open>r\<close> at the read cursor is longer than \<open>maxlen - 1\<close> bytes. Then
  \<^verbatim>\<open>pop\<close> returns 1, copies the first \<open>maxlen - 1\<close> bytes of \<open>r\<close> and writes a null byte
  after them; the rest of \<open>r\<close>, which is not empty, stays queued in front of the records
  that follow. The next \<^verbatim>\<open>pop\<close> (of any capacity \<open>maxlen2\<close>) reads from that rest: it
  writes a prefix of it, and the records \<open>t\<close> that follow are all still queued afterwards.
\<close>

theorem C4_truncated_pop_leaves_remainder:
  assumes "valid q" and "contents q = r @ NUL # t" and "NUL \<notin> set r"
    and "1 \<le> maxlen" and "maxlen - 1 < int (length r)" and "maxlen \<le> int (length s)"
    and "1 \<le> maxlen2" and "maxlen2 \<le> int (length s2)"
    and "q1 = fst (snd (pop q s maxlen))"
    and "rest = drop (nat (maxlen - 1)) r"
  shows "fst (pop q s maxlen) = 1
       \<and> take (nat maxlen) (snd (snd (pop q s maxlen))) = take (nat (maxlen - 1)) r @ [NUL]
       \<and> rest \<noteq> []
       \<and> contents q1 = rest @ NUL # t
       \<and> fst (pop q1 s2 maxlen2) = 1
       \<and> cstr (snd (snd (pop q1 s2 maxlen2))) = take (nat (maxlen2 - 1)) rest
       \<and> contents (fst (snd (pop q1 s2 maxlen2)))
           = (if int (length rest) + 1 < maxlen2 then t
              else drop (nat (maxlen2 - 1)) rest @ NUL # t)"
proof -
  have le: "maxlen - 1 \<le> int (length r)" using assms(5) by simp
  note p = pop_truncated[OF assms(1,2,3,4) le assms(6)]
  have v1: "valid q1" unfolding assms(9) by (rule p(2))
  have c1: "contents q1 = rest @ NUL # t" unfolding assms(9,10) by (rule p(3))
  have n: "NUL \<notin> set rest" unfolding assms(10) using assms(3) by (auto dest: in_set_dropD)
  have ne: "rest \<noteq> []" unfolding assms(10) using assms(4,5) by simp
  have second: "fst (pop q1 s2 maxlen2) = 1
       \<and> cstr (snd (snd (pop q1 s2 maxlen2))) = take (nat (maxlen2 - 1)) rest
       \<and> contents (fst (snd (pop q1 s2 maxlen2)))
           = (if int (length rest) + 1 < maxlen2 then t
              else drop (nat (maxlen2 - 1)) rest @ NUL # t)"
  proof (cases "int (length rest) + 1 < maxlen2")
    case True
    note p2 = pop_complete[OF v1 c1 n True assms(8)]
    show ?thesis using p2(1,3,5) True by simp
  next
    case False
    then have "maxlen2 - 1 \<le> int (length rest)" by simp
    note p2 = pop_truncated[OF v1 c1 n assms(7) this assms(8)]
    show ?thesis using p2(1,3,5) False by simp
  qed
  show ?thesis using p(1,4) ne c1 second by simp
qed

section \<open>The forwarder\<close>

lemma forwarder_step:
  assumes "valid (measuredData st)" and "contents (measuredData st) = r @ NUL # t"
    and "NUL \<notin> set r" and "r \<noteq> []" and "int (length r) + 1 < 384"
    and "384 \<le> int (length (loop_buf1 st))"
  shows "valid (measuredData (forwarder ok st))"
    and "contents (measuredData (forwarder ok st)) = (if ok then t else t @ r @ [NUL])"
    and "hub_log (forwarder ok st) = hub_log st @ [(r, ok)]"
    and "length (loop_buf1 (forwarder ok st)) = length (loop_buf1 st)"
    and "maxsize (measuredData (forwarder ok st)) = maxsize (measuredData st)"
proof -
  let ?q = "measuredData st" and ?d = "(loop_buf1 st)[0 := NUL]"
  let ?q1 = "fst (snd (pop ?q ?d 384))" and ?b = "snd (snd (pop ?q ?d 384))"
  have ne: "\<not> isEmpty ?q" using contents_Nil_iff[OF assms(1)] assms(2) by simp
  have l: "384 \<le> int (length ?d)" using assms(6) by simp
  note p = pop_complete[OF assms(1,2,3,5) l]
  have sl: "strlen ?b = int (length r)" by (simp add: strlen_def p(5))
  have a1: "available ?q1 = maxsize ?q - int (length t) - 1"
    using available_contents[OF p(2)] by (simp add: p(3,6))
  have "0 \<le> available ?q" by (rule available_nonneg[OF assms(1)])
  then have "int (length r) + 1 + int (length t) \<le> maxsize ?q - 1"
    using available_contents[OF assms(1)] by (simp add: assms(2))
  then have fit: "strlen ?b + 1 \<le> available ?q1" by (simp add: sl a1)
  note ps = push_ok[OF p(2) fit]
  have lb: "length ?b = length (loop_buf1 st)"
    unfolding p(4) using assms(5,6) by (simp add: length_store)
  have f: "forwarder ok st =
      (if ok then st\<lparr>measuredData := ?q1, loop_buf1 := ?b, hub_log := hub_log st @ [(r, ok)]\<rparr>
       else st\<lparr>measuredData := snd (push ?q1 ?b), loop_buf1 := ?b,
               hub_log := hub_log st @ [(r, ok)]\<rparr>)"
    using ne p(1) sl assms(4) by (simp add: forwarder_def Let_def case_prod_beta p(5))
  show "valid (measuredData (forwarder ok st))" using p(2) ps(2) by (simp add: f)
  show "contents (measuredData (forwarder ok st)) = (if ok then t else t @ r @ [NUL])"
    using p(3) ps(3) by (simp add: f p(5))
  show "hub_log (forwarder ok st) = hub_log st @ [(r, ok)]" by (simp add: f)
  show "length (loop_buf1 (forwarder ok st)) = length (loop_buf1 st)" using lb by (simp add: f)
  show "maxsize (measuredData (forwarder ok st)) = maxsize (measuredData st)"
    using p(6) ps(5) by (simp add: f)
qed

text \<open>
  Claim C9. A pop consumes the whole record \<open>r\<close> at the read cursor, terminator
  included (the capacity is above \<open>length r + 1\<close>). Then \<^verbatim>\<open>available()\<close> has grown by
  \<open>length r + 1\<close>, a push of any string of at most \<open>length r\<close> characters returns 1, and so
  does the push of the destination just filled. In the forwarder (capacity 384, a
  non-empty record), a failed delivery leaves the record queued behind the others.
\<close>

theorem C9_push_after_complete_pop:
  assumes "valid q" and "contents q = r @ NUL # t" and "NUL \<notin> set r"
    and "int (length r) + 1 < maxlen" and "maxlen \<le> int (length s)"
    and "q1 = fst (snd (pop q s maxlen))"
    and "strlen x \<le> int (length r)"
    and "measuredData st = q" and "r \<noteq> []" and "int (length r) + 1 < 384"
    and "384 \<le> int (length (loop_buf1 st))"
  shows "fst (pop q s maxlen) = 1
       \<and> available q1 = available q + int (length r) + 1
       \<and> fst (push q1 x) = 1
       \<and> fst (push q1 (snd (snd (pop q s maxlen)))) = 1
       \<and> contents (measuredData (forwarder False st)) = t @ r @ [NUL]"
proof -
  note p = pop_complete[OF assms(1,2,3,4,5)]
  have v1: "valid q1" unfolding assms(6) by (rule p(2))
  have a1: "available q1 = available q + int (length r) + 1"
    using available_contents[OF v1] available_contents[OF assms(1)]
    unfolding assms(6) by (simp add: p(3,6) assms(2))
  have "0 \<le> available q" by (rule available_nonneg[OF assms(1)])
  then have fit: "strlen x + 1 \<le> available q1" using assms(7) a1 by simp
  have "strlen (snd (snd (pop q s maxlen))) = int (length r)" by (simp add: strlen_def p(5))
  then have fit2: "strlen (snd (snd (pop q s maxlen))) + 1 \<le> available q1"
    using \<open>0 \<le> available q\<close> a1 by simp
  have vs: "valid (measuredData st)" "contents (measuredData st) = r @ NUL # t"
    using assms(1,2,8) by simp_all
  show ?thesis
    using p(1) a1 push_ok(1)[OF v1 fit] push_ok(1)[OF v1 fit2]
      forwarder_step(2)[OF vs assms(3,9,10,11), of False]
    by simp
qed


text \<open>
  Claim C2 as stated does not ask for an empty queue. On a queue that already holds the
  record \<open>A\<close>, the record \<open>BB\<close> fits and the capacity 8 is above its length plus one,
  yet the pop after the push writes \<open>A\<close>, and \<open>BB\<close> stays queued.
\<close>

theorem C2_push_pop_returns_older_record:
  "valid queue_A \<and> NUL \<notin> set ''BB''
   \<and> int (length ''BB'') + 1 \<le> available queue_A
   \<and> int (length ''BB'') + 1 < 8
   \<and> fst (push queue_A ''BB'') = 1
   \<and> fst (pop (snd (push queue_A ''BB'')) (replicate 8 NUL) 8) = 1
   \<and> cstr (snd (snd (pop (snd (push queue_A ''BB'')) (replicate 8 NUL) 8))) = ''A''
   \<and> cstr (snd (snd (pop (snd (push queue_A ''BB'')) (replicate 8 NUL) 8))) \<noteq> ''BB''
   \<and> contents (fst (snd (pop (snd (push queue_A ''BB'')) (replicate 8 NUL) 8))) = ''BB'' @ [NUL]"
  by code_simp

text \<open>
  The amended C2 at a new queue of capacity 8, the record \<open>hello\<close> and a destination
  of seven bytes.
\<close>

theorem C2_round_trip_on_empty_queue_witness:
  "valid (StrQueue_new (replicate 9 NUL) 8) \<and> isEmpty (StrQueue_new (replicate 9 NUL) 8)
   \<and> NUL \<notin> set ''hello''
   \<and> int (length ''hello'') + 1 \<le> available (StrQueue_new (replicate 9 NUL) 8)
   \<and> int (length ''hello'') + 1 < 7 \<and> (7::int) \<le> int (length ''#######'')
   \<and> fst (push (StrQueue_new (replicate 9 NUL) 8) ''hello'') = 1
   \<and> fst (pop (snd (push (StrQueue_new (replicate 9 NUL) 8) ''hello'')) ''#######'' 7) = 1
   \<and> cstr (snd (snd (pop (snd (push (StrQueue_new (replicate 9 NUL) 8) ''hello'')) ''#######'' 7))) = ''hello''
   \<and> isEmpty (fst (snd (pop (snd (push (StrQueue_new (replicate 9 NUL) 8) ''hello'')) ''#######'' 7)))"
proof -
  have h1: "valid (StrQueue_new (replicate 9 NUL) 8)" by code_simp
  have h2: "isEmpty (StrQueue_new (replicate 9 NUL) 8)" by code_simp
  have h3: "NUL \<notin> set ''hello''" by simp
  have h4: "int (length ''hello'') + 1 \<le> available (StrQueue_new (replicate 9 NUL) 8)" by code_simp
  have h5: "int (length ''hello'') + 1 < 7" by simp
  have h6: "(7::int) \<le> int (length ''#######'')" by simp
  show ?thesis
    using C2_round_trip_on_empty_queue[OF h1 h2 h3 h4 h5 h6] h1 h2 h4 by simp
qed

text \<open>
  The theorem at a queue holding \<open>0123456789\<close> and \<open>next\<close>: a pop of capacity 5 writes
  \<open>0123\<close>, and the following pop of capacity 16 writes \<open>456789\<close>, not \<open>next\<close>.
\<close>

theorem C4_truncated_pop_leaves_remainder_witness:
  "valid queue_long \<and> contents queue_long = ''0123456789'' @ NUL # ''next'' @ [NUL]
   \<and> NUL \<notin> set ''0123456789'' \<and> (1::int) \<le> 5 \<and> (5::int) - 1 < int (length ''0123456789'')
   \<and> (5::int) \<le> int (length ''#####'') \<and> (1::int) \<le> 16 \<and> (16::int) \<le> int (length (replicate 16 NUL))
   \<and> fst (pop queue_long ''#####'' 5) = 1
   \<and> take 5 (snd (snd (pop queue_long ''#####'' 5))) = ''0123'' @ [NUL]
   \<and> contents (fst (snd (pop queue_long ''#####'' 5))) = ''456789'' @ NUL # ''next'' @ [NUL]
   \<and> fst (pop (fst (snd (pop queue_long ''#####'' 5))) (replicate 16 NUL) 16) = 1
   \<and> cstr (snd (snd (pop (fst (snd (pop queue_long ''#####'' 5))) (replicate 16 NUL) 16))) = ''456789''
   \<and> contents (fst (snd (pop (fst (snd (pop queue_long ''#####'' 5))) (replicate 16 NUL) 16)))
       = ''next'' @ [NUL]"
proof -
  have h1: "valid queue_long" by code_simp
  have h2: "contents queue_long = ''0123456789'' @ NUL # ''next'' @ [NUL]" by code_simp
  have h3: "NUL \<notin> set ''0123456789''" by simp
  have h4: "(1::int) \<le> 5" by simp
  have h5: "(5::int) - 1 < int (length ''0123456789'')" by simp
  have h6: "(5::int) \<le> int (length ''#####'')" by simp
  have h7: "(1::int) \<le> 16" by simp
  have h8: "(16::int) \<le> int (length (replicate 16 NUL))" by simp
  show ?thesis
    using C4_truncated_pop_leaves_remainder[OF h1 h2 h3 h4 h5 h6 h7 h8 refl refl] h1 h2
    by simp
qed


text \<open>
  The theorem at the queue of three records, a destination of eight bytes, and the bridge
  that holds that queue.
\<close>

theorem C9_push_after_complete_pop_witness:
  "valid queue_abc \<and> contents queue_abc = ''t,a,1'' @ NUL # (''t,b,2'' @ NUL # ''t,c,3'' @ [NUL])
   \<and> NUL \<notin> set ''t,a,1'' \<and> int (length ''t,a,1'') + 1 < 8
   \<and> (8::int) \<le> int (length ''########'')
   \<and> strlen ''xyz'' \<le> int (length ''t,a,1'')
   \<and> measuredData bridge_abc = queue_abc \<and> ''t,a,1'' \<noteq> []
   \<and> int (length ''t,a,1'') + 1 < 384 \<and> 384 \<le> int (length (loop_buf1 bridge_abc))
   \<and> fst (pop queue_abc ''########'' 8) = 1
   \<and> available (fst (snd (pop queue_abc ''########'' 8))) = available queue_abc + 6
   \<and> fst (push (fst (snd (pop queue_abc ''########'' 8))) ''xyz'') = 1
   \<and> fst (push (fst (snd (pop queue_abc ''########'' 8))) (snd (snd (pop queue_abc ''########'' 8)))) = 1
   \<and> contents (measuredData (forwarder False bridge_abc))
       = (''t,b,2'' @ NUL # ''t,c,3'' @ [NUL]) @ ''t,a,1'' @ [NUL]"
proof -
  have h1: "valid queue_abc" by code_simp
  have h2: "contents queue_abc = ''t,a,1'' @ NUL # (''t,b,2'' @ NUL # ''t,c,3'' @ [NUL])"
    by code_simp
  have h3: "NUL \<notin> set ''t,a,1''" by simp
  have h4: "int (length ''t,a,1'') + 1 < 8" by simp
  have h5: "(8::int) \<le> int (length ''########'')" by simp
  have h7: "strlen ''xyz'' \<le> int (length ''t,a,1'')" by code_simp
  have h8: "measuredData bridge_abc = queue_abc" by (simp add: bridge_abc_def)
  have h9: "''t,a,1'' \<noteq> []" by simp
  have h10: "int (length ''t,a,1'') + 1 < 384" by simp
  have h11: "384 \<le> int (length (loop_buf1 bridge_abc))" by (simp add: bridge_abc_def)
  show ?thesis
    using C9_push_after_complete_pop[OF h1 h2 h3 h4 h5 refl h7 h8 h9 h10 h11] h1 h2 h7 h8 h11
    by simp
qed

lemma forward_all_append: "forward_all (xs @ ys) st = forward_all ys (forward_all xs st)"
  by (induction xs arbitrary: st) auto

lemma forward_retries:
  assumes "valid (measuredData st)" and "contents (measuredData st) = r @ [NUL]"
    and "NUL \<notin> set r" and "r \<noteq> []" and "int (length r) + 1 < 384"
    and "384 \<le> int (length (loop_buf1 st))"
  shows "valid (measuredData (forward_all (replicate n False) st))
       \<and> contents (measuredData (forward_all (replicate n False) st)) = r @ [NUL]
       \<and> hub_log (forward_all (replicate n False) st) = hub_log st @ replicate n (r, False)
       \<and> length (loop_buf1 (forward_all (replicate n False) st)) = length (loop_buf1 st)"
  using assms
proof (induction n arbitrary: st)
  case 0
  then show ?case by simp
next
  case (Suc n)
  have c: "contents (measuredData st) = r @ NUL # []" using Suc.prems(2) by simp
  note f = forwarder_step[OF Suc.prems(1) c Suc.prems(3,4,5,6), of False]
  have "384 \<le> int (length (loop_buf1 (forwarder False st)))" using f(4) Suc.prems(6) by simp
  from Suc.IH[OF f(1) _ Suc.prems(3,4,5) this] f(2,3,4)
  show ?case by (simp add: replicate_app_Cons_same)
qed

text \<open>
  Claim C6. The queue holds exactly the records \<open>A\<close>, \<open>B\<close>, \<open>C\<close>, in that order (each
  non-empty, without null bytes, and shorter than the forwarder's buffer). The hub accepts
  \<open>A\<close>, refuses \<open>B\<close>, accepts \<open>C\<close>, then refuses \<open>B\<close> another \<open>n\<close> times and accepts it.
  The forwarder hands the records to the hub in exactly that order, so the hub accepts
  \<open>A\<close>, \<open>C\<close>, \<open>B\<close>; after the third iteration \<open>B\<close> alone is queued, and at the end the
  queue is empty.
\<close>

theorem C6_failed_record_retried_after_the_others:
  assumes "valid (measuredData st)"
    and "contents (measuredData st) = A @ NUL # B @ NUL # C @ [NUL]"
    and "NUL \<notin> set A" and "NUL \<notin> set B" and "NUL \<notin> set C"
    and "A \<noteq> []" and "B \<noteq> []" and "C \<noteq> []"
    and "int (length A) + 1 < 384" and "int (length B) + 1 < 384" and "int (length C) + 1 < 384"
    and "384 \<le> int (length (loop_buf1 st))"
    and "final = forward_all ([True, False, True] @ replicate n False @ [True]) st"
  shows "hub_log final
           = hub_log st @ [(A, True), (B, False), (C, True)] @ replicate n (B, False) @ [(B, True)]
       \<and> delivered final = delivered st @ [A, C, B]
       \<and> contents (measuredData (forward_all [True, False, True] st)) = B @ [NUL]
       \<and> isEmpty (measuredData final)"
proof -
  let ?s1 = "forwarder True st"
  note f1 = forwarder_step[OF assms(1,2,3,6,9,12), of True]
  have c1: "contents (measuredData ?s1) = B @ NUL # C @ [NUL]" using f1(2) by simp
  have l1: "384 \<le> int (length (loop_buf1 ?s1))" using f1(4) assms(12) by simp
  let ?s2 = "forwarder False ?s1"
  note f2 = forwarder_step[OF f1(1) c1 assms(4,7,10) l1, of False]
  have c2: "contents (measuredData ?s2) = C @ NUL # B @ [NUL]" using f2(2) by simp
  have l2: "384 \<le> int (length (loop_buf1 ?s2))" using f2(4) l1 by simp
  let ?s3 = "forwarder True ?s2"
  note f3 = forwarder_step[OF f2(1) c2 assms(5,8,11) l2, of True]
  have c3: "contents (measuredData ?s3) = B @ [NUL]" using f3(2) by simp
  have l3: "384 \<le> int (length (loop_buf1 ?s3))" using f3(4) l2 by simp
  let ?s4 = "forward_all (replicate n False) ?s3"
  note r = forward_retries[OF f3(1) c3 assms(4,7,10) l3, of n]
  have c4: "contents (measuredData ?s4) = B @ NUL # []" using r by simp
  have l4: "384 \<le> int (length (loop_buf1 ?s4))" using r l3 by simp
  have v4: "valid (measuredData ?s4)" using r by simp
  note f5 = forwarder_step[OF v4 c4 assms(4,7,10) l4, of True]
  have fin: "final = forwarder True ?s4"
    unfolding assms(13) by (simp add: forward_all_append)
  have lg: "hub_log final
      = hub_log st @ [(A, True), (B, False), (C, True)] @ replicate n (B, False) @ [(B, True)]"
    unfolding fin using f5(3) r f3(3) f2(3) f1(3) by simp
  have "delivered final = delivered st @ [A, C, B]"
    unfolding delivered_def lg by simp
  moreover have "isEmpty (measuredData final)"
    unfolding fin using contents_Nil_iff[OF f5(1)] f5(2) by simp
  moreover have "contents (measuredData (forward_all [True, False, True] st)) = B @ [NUL]"
    using c3 by simp
  ultimately show ?thesis using lg by simp
qed

text \<open>
  The theorem at the bridge whose queue holds three records, with no further refusal.
\<close>

theorem C6_failed_record_retried_after_the_others_witness:
  "valid (measuredData bridge_abc)
   \<and> contents (measuredData bridge_abc) = ''t,a,1'' @ NUL # ''t,b,2'' @ NUL # ''t,c,3'' @ [NUL]
   \<and> 384 \<le> int (length (loop_buf1 bridge_abc))
   \<and> hub_log (forward_all [True, False, True, True] bridge_abc)
        = [(''t,a,1'', True), (''t,b,2'', False), (''t,c,3'', True), (''t,b,2'', True)]
   \<and> delivered (forward_all [True, False, True, True] bridge_abc) = [''t,a,1'', ''t,c,3'', ''t,b,2'']
   \<and> contents (measuredData (forward_all [True, False, True] bridge_abc)) = ''t,b,2'' @ [NUL]
   \<and> isEmpty (measuredData (forward_all [True, False, True, True] bridge_abc))"
proof -
  have h1: "valid (measuredData bridge_abc)" by code_simp
  have h2: "contents (measuredData bridge_abc) = ''t,a,1'' @ NUL # ''t,b,2'' @ NUL # ''t,c,3'' @ [NUL]"
    by code_simp
  have h12: "384 \<le> int (length (loop_buf1 bridge_abc))" by (simp add: bridge_abc_def)
  have f: "forward_all [True, False, True, True] bridge_abc
      = forward_all ([True, False, True] @ replicate 0 False @ [True]) bridge_abc" by simp
  have d: "delivered bridge_abc = []" "hub_log bridge_abc = []"
    by (simp_all add: delivered_def bridge_abc_def)
  show ?thesis
    using C6_failed_record_retried_after_the_others[OF h1 h2 _ _ _ _ _ _ _ _ _ h12 f, simplified] h1 h2 h12 d
    by simp
qed

section \<open>Parsing a schedule entry\<close>

lemma find_comma_field:
  assumes "CHR '','' \<notin> set f" and "NUL \<notin> set f"
  shows "find_comma (pre @ f @ CHR '','' # rest) (length pre)
       = (int (length pre + length f), length pre + length f + 1, False)"
  using assms
proof (induction f arbitrary: pre)
  case Nil
  show ?case by (subst find_comma.simps) simp
next
  case (Cons c f)
  have c: "c \<noteq> NUL" "c \<noteq> CHR '',''" using Cons.prems by auto
  have "find_comma (pre @ (c # f) @ CHR '','' # rest) (length pre)
      = find_comma (pre @ (c # f) @ CHR '','' # rest) (length pre + 1)"
    using c by (subst find_comma.simps) (simp add: nth_append)
  also have "\<dots> = find_comma ((pre @ [c]) @ f @ CHR '','' # rest) (length (pre @ [c]))"
    by simp
  also have "\<dots> = (int (length (pre @ [c]) + length f), length (pre @ [c]) + length f + 1, False)"
    using Cons.prems by (intro Cons.IH) auto
  finally show ?case by simp
qed

lemma find_commas_fields:
  assumes "CHR '','' \<notin> set (tag @ iv @ dev @ svc)" and "NUL \<notin> set (tag @ iv @ dev @ svc)"
  shows "find_commas (tag @ CHR '','' # iv @ CHR '','' # dev @ CHR '','' # svc @ CHR '','' # chr)
       = [int (length tag),
          int (length tag + 1 + length iv),
          int (length tag + 1 + length iv + 1 + length dev),
          int (length tag + 1 + length iv + 1 + length dev + 1 + length svc)]"
proof -
  let ?line = "tag @ CHR '','' # iv @ CHR '','' # dev @ CHR '','' # svc @ CHR '','' # chr"
  have n: "CHR '','' \<notin> set tag" "NUL \<notin> set tag" "CHR '','' \<notin> set iv" "NUL \<notin> set iv"
    "CHR '','' \<notin> set dev" "NUL \<notin> set dev" "CHR '','' \<notin> set svc" "NUL \<notin> set svc"
    using assms by auto
  have f0: "find_comma ?line 0 = (int (length tag), length tag + 1, False)"
    using find_comma_field[OF n(1,2), of "[]" "iv @ CHR '','' # dev @ CHR '','' # svc @ CHR '','' # chr"]
    by simp
  have f1: "find_comma ?line (length tag + 1)
      = (int (length tag + 1 + length iv), length tag + 1 + length iv + 1, False)"
    using find_comma_field[OF n(3,4), of "tag @ [CHR '','']" "dev @ CHR '','' # svc @ CHR '','' # chr"]
    by (simp add: ac_simps)
  have f2: "find_comma ?line (length tag + 1 + length iv + 1)
      = (int (length tag + 1 + length iv + 1 + length dev),
         length tag + 1 + length iv + 1 + length dev + 1, False)"
    using find_comma_field[OF n(5,6), of "tag @ CHR '','' # iv @ [CHR '','']" "svc @ CHR '','' # chr"]
    by (simp add: ac_simps)
  have f3: "find_comma ?line (length tag + 1 + length iv + 1 + length dev + 1)
      = (int (length tag + 1 + length iv + 1 + length dev + 1 + length svc),
         length tag + 1 + length iv + 1 + length dev + 1 + length svc + 1, False)"
    using find_comma_field[OF n(7,8), of "tag @ CHR '','' # iv @ CHR '','' # dev @ [CHR '','']" chr]
    by (simp add: ac_simps)
  show ?thesis
    unfolding find_commas_def
    using f0 f1 f2 f3
    by (simp add: comma_step_def ac_simps eval_nat_numeral)
qed

lemma atoi_cut: "NUL \<notin> set iv \<Longrightarrow> atoi (iv @ NUL # rest) = atoi iv"
  by (simp add: atoi_def)

lemma set_in_range:
  "fst (ValueToRead_set v s) = ''OK''
    \<Longrightarrow> 1 \<le> minutesBetweenReads (fst (snd (ValueToRead_set v s)))
      \<and> minutesBetweenReads (fst (snd (ValueToRead_set v s))) \<le> 1440"
  by (simp add: ValueToRead_set_def Let_def split: if_splits)


lemma cut_two:
  "(tag @ c # iv @ d # rest)[length tag := x, length tag + 1 + length iv := y]
     = tag @ x # iv @ y # rest"
proof -
  have "(tag @ c # iv @ d # rest)[length tag := x] = tag @ x # iv @ d # rest"
    by (simp add: list_update_append)
  moreover have "((tag @ [x]) @ iv @ d # rest)[length (tag @ [x]) + length iv := y]
      = (tag @ [x]) @ iv @ y # rest"
    by (simp only: list_update_append list_update_length) simp
  ultimately show ?thesis by (simp add: ac_simps)
qed

lemma set_fields_minutes:
  assumes "CHR '','' \<notin> set (tag @ iv @ dev @ svc)" and "NUL \<notin> set (tag @ iv @ dev @ svc)"
    and "line = tag @ CHR '','' # iv @ CHR '','' # dev @ CHR '','' # svc @ CHR '','' # chr"
  shows "fst (ValueToRead_set v line) = ''OK''"
    and "minutesBetweenReads (fst (snd (ValueToRead_set v line)))
          = (if atoi iv < 1 then 1 else if atoi iv > 1440 then 1440 else atoi iv)"
proof -
  note fc = find_commas_fields[OF assms(1,2), of chr, folded assms(3)]
  have n: "NUL \<notin> set iv" using assms(2) by simp
  have "line[length tag := NUL, length tag + 1 + length iv := NUL]
      = tag @ NUL # iv @ NUL # (dev @ CHR '','' # svc @ CHR '','' # chr)"
    unfolding assms(3) by (rule cut_two)
  then have "drop (length tag + 1) (line[length tag := NUL, length tag + 1 + length iv := NUL])
      = iv @ NUL # (dev @ CHR '','' # svc @ CHR '','' # chr)"
    by simp
  then have a: "atoi (drop (Suc (length tag)) (line[length tag := NUL, Suc (length tag + length iv) := NUL]))
      = atoi iv"
    using atoi_cut[OF n] by simp
  have nn: "nat (int (length tag) + 1) = Suc (length tag)"
    "nat (1 + (int (length tag) + int (length iv))) = Suc (length tag + length iv)" by simp_all
  show "fst (ValueToRead_set v line) = ''OK''"
    by (simp add: ValueToRead_set_def Let_def fc)
  show "minutesBetweenReads (fst (snd (ValueToRead_set v line)))
          = (if atoi iv < 1 then 1 else if atoi iv > 1440 then 1440 else atoi iv)"
    by (simp add: ValueToRead_set_def Let_def fc nn a)
qed

text \<open>
  Claim C7. A line of five fields (no comma and no null byte in the first four) is
  accepted whatever its second field holds, and the interval stored is the value \<^verbatim>\<open>atoi\<close>
  reads there, raised to 1 when it is below 1 and lowered to 1440 when it is above 1440.
  For every line \<open>s\<close> at all, when \<^verbatim>\<open>set\<close> answers \<open>OK\<close> the interval of the entry lies
  between 1 and 1440.
\<close>

theorem C7_interval_clamped:
  assumes "CHR '','' \<notin> set (tag @ iv @ dev @ svc)" and "NUL \<notin> set (tag @ iv @ dev @ svc)"
    and "line = tag @ CHR '','' # iv @ CHR '','' # dev @ CHR '','' # svc @ CHR '','' # chr"
  shows "fst (ValueToRead_set v line) = ''OK''
       \<and> minutesBetweenReads (fst (snd (ValueToRead_set v line)))
           = (if atoi iv < 1 then 1 else if atoi iv > 1440 then 1440 else atoi iv)
       \<and> (fst (ValueToRead_set v s) = ''OK'' \<longrightarrow>
            1 \<le> minutesBetweenReads (fst (snd (ValueToRead_set v s)))
            \<and> minutesBetweenReads (fst (snd (ValueToRead_set v s))) \<le> 1440)"
  using set_fields_minutes[OF assms] set_in_range[of v s] by simp

text \<open>
  The theorem at a line whose interval is not a number (read as 0, stored as 1), and at
  a line whose interval is 5000.
\<close>

theorem C7_interval_clamped_witness:
  "CHR '','' \<notin> set (''T1'' @ ''abc'' @ ''dev'' @ ''svc'')
   \<and> NUL \<notin> set (''T1'' @ ''abc'' @ ''dev'' @ ''svc'')
   \<and> ''T1,abc,dev,svc,chr'' = ''T1'' @ CHR '','' # ''abc'' @ CHR '','' # ''dev'' @ CHR '','' # ''svc'' @ CHR '','' # ''chr''
   \<and> atoi ''abc'' = 0
   \<and> fst (ValueToRead_set (ValueToRead_new raw_entry) ''T1,abc,dev,svc,chr'') = ''OK''
   \<and> minutesBetweenReads (fst (snd (ValueToRead_set (ValueToRead_new raw_entry) ''T1,abc,dev,svc,chr''))) = 1
   \<and> fst (ValueToRead_set (ValueToRead_new raw_entry) ''T2,5000,dev,svc,chr'') = ''OK''
   \<and> 1 \<le> minutesBetweenReads (fst (snd (ValueToRead_set (ValueToRead_new raw_entry) ''T2,5000,dev,svc,chr'')))
   \<and> minutesBetweenReads (fst (snd (ValueToRead_set (ValueToRead_new raw_entry) ''T2,5000,dev,svc,chr''))) \<le> 1440"
proof -
  have h1: "CHR '','' \<notin> set (''T1'' @ ''abc'' @ ''dev'' @ ''svc'')" by simp
  have h2: "NUL \<notin> set (''T1'' @ ''abc'' @ ''dev'' @ ''svc'')" by simp
  have h3: "''T1,abc,dev,svc,chr'' = ''T1'' @ CHR '','' # ''abc'' @ CHR '','' # ''dev'' @ CHR '','' # ''svc'' @ CHR '','' # ''chr''"
    by simp
  have h4: "atoi ''abc'' = 0" by code_simp
  have h5: "fst (ValueToRead_set (ValueToRead_new raw_entry) ''T2,5000,dev,svc,chr'') = ''OK''"
    by code_simp
  show ?thesis
    using C7_interval_clamped[OF h1 h2 h3, of "ValueToRead_new raw_entry" "''T2,5000,dev,svc,chr''"] h4 h5
    by simp
qed

section \<open>The entries during a run\<close>

lemma fst_readValue:
  "fst (readValue conn p b n) =
     (case conn of Some val \<Rightarrow> p\<lparr>connects := connects p + 1\<rparr>
      | None \<Rightarrow> p\<lparr>errors := errors p OR BLESVR_ERR_CONNECTFAIL\<rparr>)"
  by (simp add: readValue_def split: option.splits)

lemma fst_read_entry: "fst (read_entry fmt conn ttag p qb) = fst (readValue conn p [] 256)"
  by (cases qb) (simp add: read_entry_def case_prod_beta Let_def fst_readValue)

lemma read_all_due_length: "length (fst (read_all_due mc w k ps qb)) = length ps"
  by (induction ps arbitrary: k qb) (auto simp: case_prod_beta)

lemma read_all_due_nth:
  "i < length ps \<Longrightarrow>
     fst (read_all_due mc w k ps qb) ! i
       = (if due mc (ps ! i) then fst (readValue (ble w (k + i)) (ps ! i) [] 256) else ps ! i)"
proof (induction ps arbitrary: i k qb)
  case Nil
  then show ?case by simp
next
  case (Cons p ps)
  show ?case
  proof (cases i)
    case 0
    then show ?thesis by (simp add: case_prod_beta fst_read_entry)
  next
    case (Suc j)
    then have "j < length ps" using Cons.prems by simp
    from Cons.IH[OF this] Suc show ?thesis by (simp add: case_prod_beta)
  qed
qed

lemma read_all_due_all:
  assumes "\<And>p conn. P p \<Longrightarrow> P (fst (readValue conn p [] 256))" and "list_all P ps"
  shows "list_all P (fst (read_all_due mc w k ps qb))"
  unfolding list_all_length read_all_due_length
proof (intro allI impI)
  fix i assume i: "i < length ps"
  then have "P (ps ! i)" using assms(2) by (simp add: list_all_length)
  then show "P (fst (read_all_due mc w k ps qb) ! i)"
    using assms(1) by (simp add: read_all_due_nth[OF i])
qed

lemma onResult_all:
  assumes "\<And>p a. P p \<Longrightarrow> P (p\<lparr>deviceAddr := strncpy (deviceAddr p) a 18\<rparr>)"
    and "list_all P ps"
  shows "list_all P (onResult n a ps)"
  using assms by (induction ps) (auto simp: onResult_def)

lemma adverts_all:
  assumes "\<And>p a. P p \<Longrightarrow> P (p\<lparr>deviceAddr := strncpy (deviceAddr p) a 18\<rparr>)"
    and "list_all P ps"
  shows "list_all P (fold (\<lambda>(devName, devAddr). onResult devName devAddr) ads ps)"
  using assms(2)
proof (induction ads arbitrary: ps)
  case Nil
  then show ?case by simp
next
  case (Cons x ads)
  have "list_all P (onResult (fst x) (snd x) ps)"
    by (rule onResult_all[where P = P, OF assms(1) Cons.prems])
  from Cons.IH[OF this] show ?case by (simp add: case_prod_beta)
qed

lemma vals2read_forwarder [simp]: "vals2read (forwarder ok st) = vals2read st"
  by (simp add: forwarder_def Let_def case_prod_beta)

lemma vals2read_wifi_task [simp]: "vals2read (wifi_task w st) = vals2read st"
  by (simp add: wifi_task_def split: option.splits)

lemma vals2read_minute_tasks:
  "vals2read (minute_tasks w st) =
     (if currentMin w \<noteq> lastMin st
      then fst (read_all_due (minuteCounter st + 1) w 0 (vals2read st) (measuredData st, loop_buf st))
      else vals2read st)"
  by (simp add: minute_tasks_def Let_def case_prod_beta)

lemma loop_iter_all:
  assumes "\<And>p conn. P p \<Longrightarrow> P (fst (readValue conn p [] 256))"
    and "\<And>p a. P p \<Longrightarrow> P (p\<lparr>deviceAddr := strncpy (deviceAddr p) a 18\<rparr>)"
    and "list_all P (vals2read st)"
  shows "list_all P (vals2read (loop_iter w st))"
proof -
  have "list_all P (vals2read (minute_tasks w st))"
    using read_all_due_all[of P, OF assms(1,3)] assms(3)
    by (simp add: vals2read_minute_tasks)
  then have "list_all P (vals2read (scan_task w (minute_tasks w st)))"
    using adverts_all[of P, OF assms(2)] by (simp add: scan_task_def)
  then show ?thesis by (simp add: loop_iter_def)
qed

lemma run_all:
  assumes "\<And>p conn. P p \<Longrightarrow> P (fst (readValue conn p [] 256))"
    and "\<And>p a. P p \<Longrightarrow> P (p\<lparr>deviceAddr := strncpy (deviceAddr p) a 18\<rparr>)"
    and "list_all P (vals2read st)"
  shows "list_all P (vals2read (run ws st))"
  using assms(3)
proof (induction ws arbitrary: st)
  case Nil
  then show ?case by simp
next
  case (Cons w ws)
  from Cons.IH[OF loop_iter_all[of P, OF assms(1,2) Cons.prems]] show ?case by simp
qed

lemma set_keeps:
  "errors (fst (snd (ValueToRead_set v s))) = errors v"
  "deviceAddr (fst (snd (ValueToRead_set v s))) = deviceAddr v"
  "connects (fst (snd (ValueToRead_set v s))) = connects v"
  by (simp_all add: ValueToRead_set_def Let_def)

lemma set_interval:
  "1 \<le> minutesBetweenReads v \<Longrightarrow> minutesBetweenReads v \<le> 1440
    \<Longrightarrow> 1 \<le> minutesBetweenReads (fst (snd (ValueToRead_set v s)))
      \<and> minutesBetweenReads (fst (snd (ValueToRead_set v s))) \<le> 1440"
  by (simp add: ValueToRead_set_def Let_def)

lemma or_connectfail: "(x::int) AND 1 = 0 \<Longrightarrow> (x OR 2) AND 1 = 0"
proof -
  have "(x OR 2) AND 1 = x AND 1"
    by (auto simp: bit_eq_iff bit_simps)
  then show "x AND 1 = 0 \<Longrightarrow> (x OR 2) AND 1 = 0" by simp
qed

text \<open>
  Claim C8. In every state the bridge reaches from \<^verbatim>\<open>setup\<close> by iterations of the loop,
  whatever the configuration and whatever the outside world answers, the device-not-found
  bit of the error mask of every entry is 0; the constructor sets the mask to 0.
\<close>

theorem C8_devnotfound_bit_never_set:
  assumes "st = run ws (bridge_setup cfg qmem b b1 minute)" and "p \<in> set (vals2read st)"
  shows "errors p AND BLESVR_ERR_DEVNOTFOUND = 0 \<and> errors (ValueToRead_new raw) = 0"
proof -
  let ?P = "\<lambda>p. errors p AND BLESVR_ERR_DEVNOTFOUND = 0"
  have rd: "\<And>p conn. ?P p \<Longrightarrow> ?P (fst (readValue conn p [] 256))"
    by (auto simp: fst_readValue BLESVR_ERR_DEVNOTFOUND_def BLESVR_ERR_CONNECTFAIL_def
        or_connectfail split: option.splits)
  have ad: "\<And>p a. ?P p \<Longrightarrow> ?P (p\<lparr>deviceAddr := strncpy (deviceAddr p) a 18\<rparr>)" by simp
  have "list_all ?P (vals2read (bridge_setup cfg qmem b b1 minute))"
    by (simp add: bridge_setup_def list_all_iff set_keeps ValueToRead_new_def case_prod_beta)
  from run_all[of ?P, OF rd ad this] assms show ?thesis
    by (simp add: list_all_iff ValueToRead_new_def)
qed


subsection \<open>The test of the minute tick\<close>

lemma sint_zero_iff: "sint (x :: 32 word) = 0 \<longleftrightarrow> x = 0"
  by (rule signed_eq_0_iff)

lemma unat_interval:
  "1 \<le> m \<Longrightarrow> m \<le> 1440 \<Longrightarrow> unat (word_of_int m :: 32 word) = nat m"
  by (simp add: unat_eq_nat_uint uint_word_of_int mod_pos_pos_trivial)

lemma due_iff:
  assumes "1 \<le> minutesBetweenReads p" and "minutesBetweenReads p \<le> 1440"
    and "deviceAddr p \<noteq> []"
  shows "due mc p \<longleftrightarrow> unat mc mod nat (minutesBetweenReads p) = 0 \<and> cstr (deviceAddr p) \<noteq> []"
proof -
  have "unat (mc mod word_of_int (minutesBetweenReads p))
      = unat mc mod nat (minutesBetweenReads p)"
    by (simp add: unat_mod unat_interval[OF assms(1,2)])
  then have a: "mc mod word_of_int (minutesBetweenReads p) = 0
      \<longleftrightarrow> unat mc mod nat (minutesBetweenReads p) = 0"
    by (metis unat_eq_0)
  have b: "deviceAddr p ! 0 \<noteq> NUL \<longleftrightarrow> cstr (deviceAddr p) \<noteq> []"
    using assms(3) by (cases "deviceAddr p") (auto simp: cstr_def)
  show ?thesis by (simp add: due_def Let_def sint_zero_iff a b)
qed

lemma interval_reachable:
  "list_all (\<lambda>p. 1 \<le> minutesBetweenReads p \<and> minutesBetweenReads p \<le> 1440)
     (vals2read (run ws (bridge_setup cfg qmem b b1 minute)))"
proof (rule run_all)
  show "list_all (\<lambda>p. 1 \<le> minutesBetweenReads p \<and> minutesBetweenReads p \<le> 1440)
     (vals2read (bridge_setup cfg qmem b b1 minute))"
    using set_interval[of "ValueToRead_new raw" for raw]
    by (simp add: bridge_setup_def list_all_iff case_prod_beta ValueToRead_new_def)
qed (auto simp: fst_readValue split: option.splits)

lemma strncpy_nonempty: "0 < n \<Longrightarrow> strncpy dst src n \<noteq> []"
  by (cases n) (auto simp: strncpy_def)

lemma addr_reachable:
  assumes "\<forall>x \<in> set cfg. deviceAddr (fst x) \<noteq> []"
  shows "list_all (\<lambda>p. deviceAddr p \<noteq> [])
     (vals2read (run ws (bridge_setup cfg qmem b b1 minute)))"
proof (rule run_all)
  show "list_all (\<lambda>p. deviceAddr p \<noteq> []) (vals2read (bridge_setup cfg qmem b b1 minute))"
    using assms
    by (auto simp: bridge_setup_def list_all_iff set_keeps ValueToRead_new_def)
qed (auto simp: fst_readValue strncpy_nonempty split: option.splits)

lemma minuteCounter_minute_tasks:
  "currentMin w \<noteq> lastMin st \<Longrightarrow> minuteCounter (minute_tasks w st) = minuteCounter st + 1"
  by (simp add: minute_tasks_def Let_def case_prod_beta)

text \<open>
  Claim C5. In a state reached from \<^verbatim>\<open>setup\<close> (the entries allocated with a non-empty
  address array), on a minute tick the counter becomes \<open>mc\<close>, one more than before, and
  the entry at index \<open>i\<close> passes the test of the loop if and only if \<open>mc\<close> modulo its
  interval is 0 and its resolved address is not the empty string; the entry is read in
  exactly that case. The counter starts one below 0, so it is 0 on the first tick, and
  when it is 0 every entry with a resolved address is due, whatever its interval.
\<close>

theorem C5_due_on_minute_tick:
  assumes "st = run ws (bridge_setup cfg qmem b b1 minute)"
    and "\<forall>x \<in> set cfg. deviceAddr (fst x) \<noteq> []"
    and "currentMin w \<noteq> lastMin st"
    and "i < length (vals2read st)" and "p = vals2read st ! i"
    and "mc = minuteCounter st + 1"
  shows "minuteCounter (minute_tasks w st) = mc
       \<and> (due mc p \<longleftrightarrow> unat mc mod nat (minutesBetweenReads p) = 0 \<and> cstr (deviceAddr p) \<noteq> [])
       \<and> vals2read (minute_tasks w st) ! i
           = (if unat mc mod nat (minutesBetweenReads p) = 0 \<and> cstr (deviceAddr p) \<noteq> []
              then fst (readValue (ble w i) p [] 256) else p)
       \<and> minuteCounter (bridge_setup cfg qmem b b1 minute) + 1 = 0
       \<and> (mc = 0 \<longrightarrow> (due mc p \<longleftrightarrow> cstr (deviceAddr p) \<noteq> []))"
proof -
  have iv: "1 \<le> minutesBetweenReads p" "minutesBetweenReads p \<le> 1440"
    using interval_reachable[of ws cfg qmem b b1 minute] assms(1,4,5)
    by (simp_all add: list_all_length)
  have ad: "deviceAddr p \<noteq> []"
    using addr_reachable[OF assms(2), of ws qmem b b1 minute] assms(1,4,5)
    by (simp add: list_all_length)
  note d = due_iff[OF iv ad, of mc]
  have t: "vals2read (minute_tasks w st) ! i
      = (if due mc p then fst (readValue (ble w i) p [] 256) else p)"
    using assms(3,4,5,6) by (simp add: vals2read_minute_tasks read_all_due_nth)
  have z: "mc = 0 \<Longrightarrow> (due mc p \<longleftrightarrow> cstr (deviceAddr p) \<noteq> [])"
    using d by simp
  have s: "minuteCounter (bridge_setup cfg qmem b b1 minute) + 1 = 0"
    by (simp add: bridge_setup_def)
  show ?thesis
    using minuteCounter_minute_tasks[OF assms(3)] assms(6) d t z s by simp
qed


lemma onResult_length [simp]: "length (onResult n a ps) = length ps"
  by (simp add: onResult_def)

lemma adverts_length [simp]:
  "length (fold (\<lambda>(devName, devAddr). onResult devName devAddr) ads ps) = length ps"
  by (induction ads arbitrary: ps) (auto simp: case_prod_beta)

lemma loop_iter_length: "length (vals2read (loop_iter w st)) = length (vals2read st)"
  by (simp add: loop_iter_def scan_task_def vals2read_minute_tasks read_all_due_length)

lemma run_length: "length (vals2read (run ws st)) = length (vals2read st)"
  by (induction ws arbitrary: st) (simp_all add: loop_iter_length)

text \<open>
  The theorem at the first entry of the bridge configured with one line, after a scan
  and a minute tick whose connection fails.
\<close>

theorem C8_devnotfound_bit_never_set_witness:
  "vals2read (run [world_scan, world_tick] bridge_T1) ! 0
     \<in> set (vals2read (run [world_scan, world_tick] bridge_T1))
   \<and> errors (vals2read (run [world_scan, world_tick] bridge_T1) ! 0) AND BLESVR_ERR_DEVNOTFOUND = 0
   \<and> errors (ValueToRead_new raw_entry) = 0"
proof -
  have "length (vals2read (run [world_scan, world_tick] bridge_T1)) = 1"
    unfolding run_length by (simp add: bridge_T1_def bridge_setup_def config_T1_def)
  then have h: "vals2read (run [world_scan, world_tick] bridge_T1) ! 0
     \<in> set (vals2read (run [world_scan, world_tick] bridge_T1))"
    by (intro nth_mem) simp
  show ?thesis
    using C8_devnotfound_bit_never_set[OF bridge_T1_def[THEN arg_cong, of "run [world_scan, world_tick]"] h, of raw_entry] h
    by simp
qed

text \<open>
  The theorem at the bridge configured with one line of interval 5, after an iteration
  in which the scan resolves the device: on the first tick the counter is 0, the entry is
  due and is read.
\<close>

theorem C5_due_on_minute_tick_witness:
  "currentMin world_tick \<noteq> lastMin (run [world_scan] bridge_T1)
   \<and> 0 < length (vals2read (run [world_scan] bridge_T1))
   \<and> minuteCounter (run [world_scan] bridge_T1) + 1 = 0
   \<and> minutesBetweenReads (vals2read (run [world_scan] bridge_T1) ! 0) = 5
   \<and> cstr (deviceAddr (vals2read (run [world_scan] bridge_T1) ! 0)) = ''aa:bb:cc:dd:ee:ff''
   \<and> due 0 (vals2read (run [world_scan] bridge_T1) ! 0)
   \<and> minuteCounter (minute_tasks world_tick (run [world_scan] bridge_T1)) = 0
   \<and> vals2read (minute_tasks world_tick (run [world_scan] bridge_T1)) ! 0
       = fst (readValue (ble world_tick 0) (vals2read (run [world_scan] bridge_T1) ! 0) [] 256)"
proof -
  have h2: "\<forall>x \<in> set config_T1. deviceAddr (fst x) \<noteq> []"
    by (simp add: config_T1_def raw_entry_def)
  have h3: "currentMin world_tick \<noteq> lastMin (run [world_scan] bridge_T1)" by code_simp
  have h4: "0 < length (vals2read (run [world_scan] bridge_T1))"
    unfolding run_length by (simp add: bridge_T1_def bridge_setup_def config_T1_def)
  have h6: "0 = minuteCounter (run [world_scan] bridge_T1) + 1" by code_simp
  have e: "minutesBetweenReads (vals2read (run [world_scan] bridge_T1) ! 0) = 5"
    "cstr (deviceAddr (vals2read (run [world_scan] bridge_T1) ! 0)) = ''aa:bb:cc:dd:ee:ff''"
    by code_simp+
  show ?thesis
    using C5_due_on_minute_tick[OF bridge_T1_def[THEN arg_cong, of "run [world_scan]"] h2 h3 h4 refl h6]
      h3 h4 h6 e
    by simp
qed

subsection \<open>A read whose connection fails\<close>

lemma read_entry_failed:
  "read_entry fmt None ttag p (q, b)
     = (p\<lparr>errors := errors p OR BLESVR_ERR_CONNECTFAIL\<rparr>,
        snd (push q (fmt (strncpy b ''*UNKNOWN*'' 255) ttag
                        (p\<lparr>errors := errors p OR BLESVR_ERR_CONNECTFAIL\<rparr>))),
        fmt (strncpy b ''*UNKNOWN*'' 255) ttag (p\<lparr>errors := errors p OR BLESVR_ERR_CONNECTFAIL\<rparr>))"
  by (simp add: read_entry_def readValue_def Let_def)

text \<open>
  Claim C3, as amended. For a due entry whose connection fails, the read sets the
  connect-failed bit of the entry, leaves its connect counter as it was, and still pushes
  what the formatting leaves in the buffer: whatever the C library answers, when that
  string fits it is queued behind the bytes already there, so the queue is not empty
  afterwards.
\<close>

theorem C3_failed_connect_still_pushes:
  assumes "due mc p" and "ble w i = None"
    and "res = read_all_due mc w i [p] (q, b)"
    and "p' = p\<lparr>errors := errors p OR BLESVR_ERR_CONNECTFAIL\<rparr>"
    and "line = sprintf_buf w (strncpy b ''*UNKNOWN*'' 255) (clock w i) p'"
    and "valid q" and "strlen line + 1 \<le> available q"
  shows "fst res = [p']
       \<and> errors (hd (fst res)) = errors p OR BLESVR_ERR_CONNECTFAIL
       \<and> connects (hd (fst res)) = connects p
       \<and> fst (snd res) = snd (push q line)
       \<and> used (fst (snd res)) = used q + strlen line + 1
       \<and> contents (fst (snd res)) = contents q @ cstr line @ [NUL]
       \<and> \<not> isEmpty (fst (snd res))"
proof -
  have r: "res = ([p'], snd (push q line), line)"
    unfolding assms(3,4,5) using assms(1,2) by (simp add: read_entry_failed)
  note ps = push_ok[OF assms(6,7)]
  have "contents (snd (push q line)) \<noteq> []" using ps(3) by simp
  then have ne: "\<not> isEmpty (snd (push q line))"
    using contents_Nil_iff[OF ps(2)] by simp
  show ?thesis using ps(3,6) ne by (simp add: r assms(4))
qed

text \<open>
  The amended C3 at a resolved entry read every minute, an empty queue of capacity 64 and
  a library that formats in place.
\<close>

theorem C3_failed_connect_still_pushes_witness:
  "due 0 entry_T1 \<and> ble world_tick 0 = None
   \<and> valid (StrQueue_new (replicate 65 NUL) 64)
   \<and> strlen (sprintf_buf world_tick (strncpy (replicate 384 NUL) ''*UNKNOWN*'' 255)
         (clock world_tick 0) (entry_T1\<lparr>errors := errors entry_T1 OR BLESVR_ERR_CONNECTFAIL\<rparr>)) + 1
       \<le> available (StrQueue_new (replicate 65 NUL) 64)
   \<and> errors (hd (fst (read_all_due 0 world_tick 0 [entry_T1]
         (StrQueue_new (replicate 65 NUL) 64, replicate 384 NUL)))) = 2
   \<and> connects (hd (fst (read_all_due 0 world_tick 0 [entry_T1]
         (StrQueue_new (replicate 65 NUL) 64, replicate 384 NUL)))) = 0
   \<and> \<not> isEmpty (fst (snd (read_all_due 0 world_tick 0 [entry_T1]
         (StrQueue_new (replicate 65 NUL) 64, replicate 384 NUL))))"
proof -
  have h1: "due 0 entry_T1" by code_simp
  have h2: "ble world_tick 0 = None" by (simp add: world_tick_def)
  have h6: "valid (StrQueue_new (replicate 65 NUL) 64)" by code_simp
  have h7: "strlen (sprintf_buf world_tick (strncpy (replicate 384 NUL) ''*UNKNOWN*'' 255)
         (clock world_tick 0) (entry_T1\<lparr>errors := errors entry_T1 OR BLESVR_ERR_CONNECTFAIL\<rparr>)) + 1
       \<le> available (StrQueue_new (replicate 65 NUL) 64)" by code_simp
  have e: "errors entry_T1 OR BLESVR_ERR_CONNECTFAIL = 2" "connects entry_T1 = 0"
    by code_simp+
  note t = C3_failed_connect_still_pushes[OF h1 h2 refl refl refl h6 h7]
  have c1: "errors (hd (fst (read_all_due 0 world_tick 0 [entry_T1]
         (StrQueue_new (replicate 65 NUL) 64, replicate 384 NUL)))) = 2"
    using t[THEN conjunct2, THEN conjunct1] unfolding e .
  have c2: "connects (hd (fst (read_all_due 0 world_tick 0 [entry_T1]
         (StrQueue_new (replicate 65 NUL) 64, replicate 384 NUL)))) = 0"
    using t[THEN conjunct2, THEN conjunct2, THEN conjunct1] unfolding e .
  have c3: "\<not> isEmpty (fst (snd (read_all_due 0 world_tick 0 [entry_T1]
         (StrQueue_new (replicate 65 NUL) 64, replicate 384 NUL))))"
    using t[THEN conjunct2, THEN conjunct2, THEN conjunct2, THEN conjunct2, THEN conjunct2, THEN conjunct2] .
  show ?thesis
    by (intro conjI h1 h2 h6 h7 c1 c2 c3)
qed

text \<open>
  Claim C3 as stated says that nothing is queued when the connection fails. For the entry
  above, an empty queue and a library that formats in place, the queue is not empty after
  the failed read: it holds 47 bytes.
\<close>

theorem C3_failed_connect_queue_not_empty:
  "due 0 entry_T1 \<and> ble world_tick 0 = None
   \<and> isEmpty (StrQueue_new (replicate 65 NUL) 64)
   \<and> \<not> isEmpty (fst (snd (read_all_due 0 world_tick 0 [entry_T1]
         (StrQueue_new (replicate 65 NUL) 64, replicate 384 NUL))))
   \<and> used (fst (snd (read_all_due 0 world_tick 0 [entry_T1]
         (StrQueue_new (replicate 65 NUL) 64, replicate 384 NUL)))) = 47"
  by code_simp

end
